theory Spec2Isabelle
  imports Complex_Main "HOL-Library.Multiset" "HOL-Library.Word"
begin

section \<open>The comparison of metric statistics (compare.go)\<close>

text \<open>
  The file \<^verbatim>\<open>compare.go\<close> decides whether two sets of metric statistics are
  proximal. Its integers are Go's \<^verbatim>\<open>int\<close>, 64 bits wide with arithmetic that wraps,
  and its arithmetic is on \<^verbatim>\<open>float64\<close>, where every operation rounds its exact
  result to the nearest representable value, ties to the even significand.
\<close>

subsection \<open>Rounding to binary64\<close>

text \<open>
  A finite \<^verbatim>\<open>float64\<close> is the real number it denotes: an integer of magnitude below
  \<open>2 ^ 53\<close> times a power of two with exponent at least \<open>-1074\<close>. The sign of zero is
  not kept (no result of this file depends on it), and neither is overflow: the values
  of this file come from 64-bit integers, quotients of at most \<open>2\<close> and sums of weights
  below \<open>1\<close>, far from the largest \<^verbatim>\<open>float64\<close>.
\<close>

definition pow2 :: "int \<Rightarrow> real" where
  "pow2 e = (if 0 \<le> e then 2 ^ nat e else 1 / 2 ^ nat (- e))"

text \<open>The binary exponent of a positive number: \<open>pow2 (expo x) \<le> x < pow2 (expo x + 1)\<close>.\<close>

definition expo :: "real \<Rightarrow> int" where
  "expo x = \<lfloor>log 2 x\<rfloor>"

text \<open>The nearest integer, a tie going to the even one.\<close>

definition round_even :: "real \<Rightarrow> int" where
  "round_even q =
     (let f = \<lfloor>q\<rfloor>; d = q - of_int f
      in if d < 1 / 2 then f
         else if 1 / 2 < d then f + 1
         else if even f then f else f + 1)"

text \<open>Rounding a positive number to 53 significant bits; below \<open>pow2 (-1022)\<close> the
  spacing stays that of the smallest normal numbers.\<close>

definition round_pos :: "real \<Rightarrow> real" where
  "round_pos x =
     (let e = max (expo x) (- 1022); u = pow2 (e - 52)
      in of_int (round_even (x / u)) * u)"

definition round64 :: "real \<Rightarrow> real" where
  "round64 x = (if x = 0 then 0 else if 0 < x then round_pos x else - round_pos (- x))"

text \<open>The operations \<^verbatim>\<open>+\<close>, \<^verbatim>\<open>-\<close>, \<^verbatim>\<open>*\<close> and \<^verbatim>\<open>/\<close> (divisor not zero) on finite values.\<close>

definition fadd :: "real \<Rightarrow> real \<Rightarrow> real" where
  "fadd x y = round64 (x + y)"

definition fsub :: "real \<Rightarrow> real \<Rightarrow> real" where
  "fsub x y = round64 (x - y)"

definition fmul :: "real \<Rightarrow> real \<Rightarrow> real" where
  "fmul x y = round64 (x * y)"

definition fdiv :: "real \<Rightarrow> real \<Rightarrow> real" where
  "fdiv x y = round64 (x / y)"

text \<open>\<^verbatim>\<open>math.Pow(2, y)\<close>: the power of two when it is representable, its rounding
  otherwise (zero below \<open>pow2 (-1074)\<close>).\<close>

definition fpow2 :: "real \<Rightarrow> real" where
  "fpow2 y = round64 (2 powr y)"

subsection \<open>Floating-point values\<close>

datatype float64 = Finite real | PosInf | NegInf | NaN

text \<open>The quotient \<^verbatim>\<open>x / y\<close> of two finite values; the divisor zero is positive zero.\<close>

definition f64_div :: "real \<Rightarrow> real \<Rightarrow> float64" where
  "f64_div x y =
     (if y \<noteq> 0 then Finite (fdiv x y)
      else if x = 0 then NaN
      else if 0 < x then PosInf else NegInf)"

text \<open>\<^verbatim>\<open>x > t\<close> and \<^verbatim>\<open>x >= t\<close> for a finite \<open>t\<close>: every comparison with NaN is false.\<close>

fun f64_gt :: "float64 \<Rightarrow> real \<Rightarrow> bool" where
  "f64_gt (Finite x) t = (t < x)"
| "f64_gt PosInf t = True"
| "f64_gt NegInf t = False"
| "f64_gt NaN t = False"

fun f64_ge :: "float64 \<Rightarrow> real \<Rightarrow> bool" where
  "f64_ge (Finite x) t = (t \<le> x)"
| "f64_ge PosInf t = True"
| "f64_ge NegInf t = False"
| "f64_ge NaN t = False"

fun f64_lt :: "float64 \<Rightarrow> real \<Rightarrow> bool" where
  "f64_lt (Finite x) t = (x < t)"
| "f64_lt PosInf t = False"
| "f64_lt NegInf t = True"
| "f64_lt NaN t = False"

text \<open>\<^verbatim>\<open>math.Sqrt\<close> of a finite value: NaN below zero, the rounded root otherwise.\<close>

definition f64_sqrt :: "real \<Rightarrow> float64" where
  "f64_sqrt x = (if x < 0 then NaN else Finite (round64 (sqrt x)))"

text \<open>The conversion \<^verbatim>\<open>int(x)\<close> of a finite value truncates towards zero.\<close>

definition trunc_int :: "real \<Rightarrow> int" where
  "trunc_int x = (if 0 \<le> x then \<lfloor>x\<rfloor> else \<lceil>x\<rceil>)"

text \<open>The conversion \<^verbatim>\<open>float64(n)\<close> of an \<^verbatim>\<open>int\<close>.\<close>

definition float64_of_int :: "64 word \<Rightarrow> real" where
  "float64_of_int n = round64 (real_of_int (sint n))"

subsection \<open>Formatting\<close>

definition digit_char :: "nat \<Rightarrow> char" where
  "digit_char d = char_of (48 + d)"

function show_nat :: "nat \<Rightarrow> string" where
  "show_nat n = (if n < 10 then [digit_char n] else show_nat (n div 10) @ [digit_char (n mod 10)])"
  by pat_completeness auto
termination
  by (relation "measure (\<lambda>n. n)") auto

declare show_nat.simps [simp del]

text \<open>The verb \<^verbatim>\<open>%d\<close> of \<^verbatim>\<open>fmt.Sprintf\<close>.\<close>

definition show_int :: "int \<Rightarrow> string" where
  "show_int i = (if i < 0 then CHR ''-'' # show_nat (nat (- i)) else show_nat (nat i))"

subsection \<open>The data\<close>

text \<open>
  Modelled from the spec: the declarations of \<^verbatim>\<open>Stats\<close> and of the type of its
  metric summaries are not in \<^verbatim>\<open>compare.go\<close>. The spec gives a summary the fields
  \<^verbatim>\<open>Median\<close> and \<^verbatim>\<open>MAD\<close> and gives \<^verbatim>\<open>Stats\<close> the sample count
  \<^verbatim>\<open>NSamples\<close> and the mapping \<^verbatim>\<open>Metrics\<close> from keys to summaries. The code
  formats all three numbers with \<^verbatim>\<open>%d\<close>, converts them with \<^verbatim>\<open>float64(...)\<close> and
  subtracts two of them inside the conversion, so they are Go integers: 64-bit words
  read as signed, whose subtraction wraps.

  The mapping is an association list: its order is the order in which
  \<^verbatim>\<open>range\<close> visits the keys, which Go leaves open. A Go map has each key once,
  so \<open>distinct (map fst (Metrics s))\<close> holds of every value the code can receive.
\<close>

record MetricStat =
  Median :: "64 word"
  MAD :: "64 word"

record Stats =
  NSamples :: "64 word"
  Metrics :: "(string \<times> MetricStat) list"

text \<open>Indexing a Go map at a missing key gives the zero value.\<close>

definition zeroMetric :: MetricStat where
  "zeroMetric = \<lparr>Median = 0, MAD = 0\<rparr>"

definition metric_at :: "Stats \<Rightarrow> string \<Rightarrow> MetricStat" where
  "metric_at s key = (case map_of (Metrics s) key of None \<Rightarrow> zeroMetric | Some m \<Rightarrow> m)"

definition has_metric :: "Stats \<Rightarrow> string \<Rightarrow> bool" where
  "has_metric s key = (map_of (Metrics s) key \<noteq> None)"

text \<open>The initial value of the global \<^verbatim>\<open>CmpThreshold\<close>, the \<^verbatim>\<open>float64\<close> nearest to
  \<open>0.2\<close>; the functions below take the current value as their first argument.\<close>

definition CmpThreshold :: real where
  "CmpThreshold = round64 (2 / 10)"

text \<open>The constant \<^verbatim>\<open>-0.1\<close> as the \<^verbatim>\<open>float64\<close> that \<^verbatim>\<open>score\<close> holds.\<close>

definition badTimePenalty :: real where
  "badTimePenalty = round64 (- (1 / 10))"

record cmpScore =
  num :: real
  msg :: string

text \<open>The methods \<^verbatim>\<open>Len\<close>, \<^verbatim>\<open>Less\<close> and \<^verbatim>\<open>Swap\<close> of \<^verbatim>\<open>cmpScores\<close>.\<close>

definition Len :: "cmpScore list \<Rightarrow> nat" where
  "Len s = length s"

definition Less :: "cmpScore list \<Rightarrow> nat \<Rightarrow> nat \<Rightarrow> bool" where
  "Less s i j = (num (s ! i) < num (s ! j))"

definition Swap :: "cmpScore list \<Rightarrow> nat \<Rightarrow> nat \<Rightarrow> cmpScore list" where
  "Swap s i j = s[i := s ! j, j := s ! i]"

text \<open>
  \<^verbatim>\<open>sort.Sort\<close> is a function of Go's standard library that reaches the data only
  through these three methods. On short slices it is the insertion sort below: for
  \<open>i\<close> from \<open>1\<close> to \<open>Len - 1\<close>, the element at \<open>i\<close> is swapped downwards while it is
  \<^verbatim>\<open>Less\<close> than its left neighbour. On longer slices the library runs another
  algorithm, with the same result up to the order of elements of equal \<open>num\<close>.
\<close>

function bubble :: "cmpScore list \<Rightarrow> nat \<Rightarrow> cmpScore list" where
  "bubble s j = (if 0 < j \<and> Less s j (j - 1) then bubble (Swap s j (j - 1)) (j - 1) else s)"
  by pat_completeness auto
termination
  by (relation "measure (\<lambda>(s, j). j)") auto

declare bubble.simps [simp del]

definition Sort :: "cmpScore list \<Rightarrow> cmpScore list" where
  "Sort s = fold (\<lambda>i s. bubble s i) [1..<Len s] s"

subsection \<open>The metric filter\<close>

definition cmpMetrics :: "string list" where
  "cmpMetrics =
    [''end'',
     ''start'',
     ''serverStatus.start'',
     ''serverStatus.end'',
     ''serverStatus.asserts'',
     ''serverStatus.mem.mapped'',
     ''serverStatus.mem.mappedWithJournal'',
     ''serverStatus.mem.resident'',
     ''serverStatus.mem.supported'',
     ''serverStatus.mem.virtual'',
     ''serverStatus.metrics.commands'',
     ''serverStatus.metrics.cursor.open'',
     ''serverStatus.metrics.document'',
     ''serverStatus.metrics.operation'',
     ''serverStatus.metrics.queryExecutor'',
     ''serverStatus.metrics.record'',
     ''serverStatus.metrics.repl'',
     ''serverStatus.metrics.storage'',
     ''serverStatus.metrics.ttl'',
     ''serverStatus.opcounters'',
     ''serverStatus.opcountersRepl'',
     ''serverStatus.wiredTiger.LSM'',
     ''serverStatus.wiredTiger.async'',
     ''serverStatus.wiredTiger.block-manager'',
     ''serverStatus.wiredTiger.cache'',
     ''serverStatus.wiredTiger.concurrentTransactions'',
     ''serverStatus.wiredTiger.data-handle'',
     ''serverStatus.wiredTiger.reconciliation'',
     ''serverStatus.wiredTiger.session'',
     ''serverStatus.writeBacksQueued'']"

text \<open>\<^verbatim>\<open>strings.Split(key, ".")\<close>: the segments between the dots, one more than
  there are dots.\<close>

fun split_dot :: "string \<Rightarrow> string list" where
  "split_dot [] = [[]]"
| "split_dot (c # cs) =
     (if c = CHR ''.'' then [] # split_dot cs
      else (case split_dot cs of [] \<Rightarrow> [[c]] | w # ws \<Rightarrow> (c # w) # ws))"

text \<open>\<^verbatim>\<open>strings.Join(segs, ".")\<close>.\<close>

fun join_dot :: "string list \<Rightarrow> string" where
  "join_dot [] = []"
| "join_dot [w] = w"
| "join_dot (w # v # ws) = w @ CHR ''.'' # join_dot (v # ws)"

text \<open>The loop of \<^verbatim>\<open>isCmpMetric\<close> from index \<open>i\<close> on.\<close>

function isCmpMetric_from :: "string list \<Rightarrow> nat \<Rightarrow> bool" where
  "isCmpMetric_from s i =
     (if i < length s then
        (if join_dot (take (i + 1) s) \<in> set cmpMetrics then True
         else isCmpMetric_from s (i + 1))
      else False)"
  by pat_completeness auto
termination
  by (relation "measure (\<lambda>(s, i). length s - i)") auto

declare isCmpMetric_from.simps [simp del]

definition isCmpMetric :: "string \<Rightarrow> bool" where
  "isCmpMetric key = isCmpMetric_from (split_dot key) 0"

subsection \<open>The comparison of one metric\<close>

text \<open>\<^verbatim>\<open>math.Max(math.Abs(float64(x)), math.Abs(float64(y)))\<close>.\<close>

definition maxAbs :: "64 word \<Rightarrow> 64 word \<Rightarrow> real" where
  "maxAbs x y = max \<bar>float64_of_int x\<bar> \<bar>float64_of_int y\<bar>"

text \<open>\<^verbatim>\<open>int(CmpThreshold*100)\<close>.\<close>

definition percent :: "real \<Rightarrow> int" where
  "percent thr = trunc_int (fmul thr 100)"

definition madLine :: "real \<Rightarrow> string \<Rightarrow> MetricStat \<Rightarrow> MetricStat \<Rightarrow> string" where
  "madLine thr key a b =
     ''metric '' @ [CHR 0x27] @ key @ [CHR 0x27] @ '' not proximal: deviations ('' @
     show_int (sint (MAD a)) @ '', '' @ show_int (sint (MAD b)) @
     '') are not within threshold ('' @ show_int (percent thr) @ '')'' @ [CHR 0x0A]"

definition medianLine :: "real \<Rightarrow> string \<Rightarrow> MetricStat \<Rightarrow> MetricStat \<Rightarrow> string" where
  "medianLine thr key a b =
     ''metric '' @ [CHR 0x27] @ key @ [CHR 0x27] @ '' not proximal: medians ('' @
     show_int (sint (Median a)) @ '', '' @ show_int (sint (Median b)) @
     '') are not within threshold ('' @ show_int (percent thr) @ '')'' @ [CHR 0x0A]"

text \<open>
  \<^verbatim>\<open>compareMetrics\<close>. The two differences are taken in \<^verbatim>\<open>int\<close>, before the
  conversion, and wrap. Both quotients are taken after the test that their divisors are
  not zero, so \<open>num\<close> is a finite value.
\<close>

definition compareMetrics :: "real \<Rightarrow> Stats \<Rightarrow> Stats \<Rightarrow> string \<Rightarrow> cmpScore" where
  "compareMetrics thr sa sb key =
     (let a = metric_at sa key;
          b = metric_at sb key
      in if Median a = Median b then \<lparr>num = 1, msg = []\<rparr>
         else
           let maxmad = maxAbs (MAD a) (MAD b);
               maxmed = maxAbs (Median a) (Median b)
           in if maxmad = 0 \<or> maxmed = 0 then \<lparr>num = 1, msg = []\<rparr>
              else
                let relmad = fdiv \<bar>float64_of_int (MAD a - MAD b)\<bar> maxmad;
                    relmed = fdiv \<bar>float64_of_int (Median a - Median b)\<bar> maxmed
                in \<lparr>num = fmul (fsub 1 relmed) (fsub 1 relmad),
                    msg = (if thr < relmad then madLine thr key a b else []) @
                          (if thr < relmed then medianLine thr key a b else [])\<rparr>)"

subsection \<open>Proximal\<close>

definition sampleLine :: "real \<Rightarrow> 64 word \<Rightarrow> 64 word \<Rightarrow> string" where
  "sampleLine thr na nb =
     ''sample count not proximal: ('' @ show_int (sint na) @ '', '' @ show_int (sint nb) @
     '') are not within threshold ('' @ show_int (percent thr) @ ''%)'' @ [CHR 0x0A]"

text \<open>The test of the first \<^verbatim>\<open>if\<close>: \<^verbatim>\<open>diff/max > CmpThreshold\<close>.\<close>

definition countsDiffer :: "real \<Rightarrow> Stats \<Rightarrow> Stats \<Rightarrow> bool" where
  "countsDiffer thr a b =
     (let aCount = float64_of_int (NSamples a);
          bCount = float64_of_int (NSamples b);
          diff = \<bar>fsub aCount bCount\<bar>;
          mx = max aCount bCount
      in f64_gt (f64_div diff mx) thr)"

text \<open>The loop over the keys of \<^verbatim>\<open>a.Metrics\<close>, appending to \<open>scores\<close>. The sum
  \<^verbatim>\<open>sumScores\<close> that the loop also keeps is never read and is left out.\<close>

fun collectScores :: "real \<Rightarrow> Stats \<Rightarrow> Stats \<Rightarrow> string list \<Rightarrow> cmpScore list \<Rightarrow> cmpScore list" where
  "collectScores thr a b [] scores = scores"
| "collectScores thr a b (key # keys) scores =
     (if \<not> has_metric b key then collectScores thr a b keys scores
      else if \<not> isCmpMetric key then collectScores thr a b keys scores
      else collectScores thr a b keys (scores @ [compareMetrics thr a b key]))"

text \<open>\<^verbatim>\<open>math.Pow(2, -float64(i+1))\<close>, the weight of the index \<open>i\<close>; the conversion of
  \<open>i + 1\<close> is exact.\<close>

definition weight :: "nat \<Rightarrow> real" where
  "weight i = fpow2 (- real (i + 1))"

text \<open>The loop \<^verbatim>\<open>score += math.Pow(2, -float64(i+1)) * c.num\<close> from index \<open>i\<close> on.\<close>

fun weightedSum :: "nat \<Rightarrow> real \<Rightarrow> cmpScore list \<Rightarrow> real" where
  "weightedSum i score [] = score"
| "weightedSum i score (c # cs) =
     weightedSum (i + 1) (fadd score (fmul (weight i) (num c))) cs"

text \<open>The loop that writes every message to the buffer.\<close>

fun writeMsgs :: "string \<Rightarrow> cmpScore list \<Rightarrow> string" where
  "writeMsgs buf [] = buf"
| "writeMsgs buf (c # cs) = writeMsgs (buf @ msg c) cs"

text \<open>
  \<^verbatim>\<open>Proximal\<close>. The first argument is the value of \<^verbatim>\<open>CmpThreshold\<close>, a finite
  number; the second stands for \<^verbatim>\<open>sort.Sort\<close>, and \<open>Proximal thr Sort\<close> is the
  function of the source.
\<close>

definition Proximal ::
  "real \<Rightarrow> (cmpScore list \<Rightarrow> cmpScore list) \<Rightarrow> Stats \<Rightarrow> Stats \<Rightarrow> string \<times> float64 \<times> bool" where
  "Proximal thr srt a b =
     (let differ = countsDiffer thr a b;
          msg0 = (if differ then sampleLine thr (NSamples a) (NSamples b) else []);
          score0 = (if differ then badTimePenalty else 0);
          scores = srt (collectScores thr a b (map fst (Metrics a)) []);
          score = f64_sqrt (weightedSum 0 score0 scores);
          msg1 = msg0 @ writeMsgs [] scores;
          ok = f64_ge score (fsub 1 thr)
      in (msg1, score, ok))"

subsection \<open>Notions of the specification\<close>

text \<open>The keys that \<^verbatim>\<open>Proximal\<close> scores: those of \<open>a\<close>, in the order of the
  iteration, that \<open>b\<close> has too and that pass the filter.\<close>

definition sharedKeys :: "Stats \<Rightarrow> Stats \<Rightarrow> string list" where
  "sharedKeys a b = filter (\<lambda>key. has_metric b key \<and> isCmpMetric key) (map fst (Metrics a))"

text \<open>The relative deviation of the glossary, on the integers themselves: the absolute
  difference of two values divided by the larger of their absolute values. It is read
  only where that larger value is not zero.\<close>

definition relDev :: "int \<Rightarrow> int \<Rightarrow> real" where
  "relDev x y = \<bar>real_of_int x - real_of_int y\<bar> / max \<bar>real_of_int x\<bar> \<bar>real_of_int y\<bar>"

text \<open>The running total of the aggregation step, by rank: the score of rank \<open>i\<close>
  contributes its product with \<open>2\<close> to the power \<open>-(i + 1)\<close>, as a \<^verbatim>\<open>float64\<close>,
  and the total is a \<^verbatim>\<open>float64\<close> sum.\<close>

fun runningTotal :: "real \<Rightarrow> real list \<Rightarrow> nat \<Rightarrow> real" where
  "runningTotal acc0 nums 0 = acc0"
| "runningTotal acc0 nums (Suc i) =
     fadd (runningTotal acc0 nums i) (round64 (nums ! i / 2 ^ (i + 1)))"

text \<open>The invariant of the inner loop of the sort while the element that started at
  \<open>k\<close> is at \<open>j\<close>, and what holds when the loop stops.\<close>

definition bubble_inv :: "cmpScore list \<Rightarrow> nat \<Rightarrow> nat \<Rightarrow> bool" where
  "bubble_inv s j k \<longleftrightarrow>
     j \<le> k \<and> k < length s \<and>
     (\<forall>p q. p < q \<and> q \<le> k \<and> p \<noteq> j \<and> q \<noteq> j \<longrightarrow> num (s ! p) \<le> num (s ! q)) \<and>
     (\<forall>q. j < q \<and> q \<le> k \<longrightarrow> num (s ! j) < num (s ! q))"

definition sorted_upto :: "cmpScore list \<Rightarrow> nat \<Rightarrow> bool" where
  "sorted_upto s k \<longleftrightarrow> (\<forall>p q. p < q \<and> q \<le> k \<longrightarrow> num (s ! p) \<le> num (s ! q))"

text \<open>The single-metric scenario of the specification.\<close>

definition scenario_a :: Stats where
  "scenario_a = \<lparr>NSamples = 100, Metrics = [(''serverStatus.mem.resident'', \<lparr>Median = 50, MAD = 2\<rparr>)]\<rparr>"

text \<open>Sample counts 100 and 130 and no metrics: the sample-count scenario.\<close>

definition counts_a :: Stats where
  "counts_a = \<lparr>NSamples = 100, Metrics = []\<rparr>"

definition counts_b :: Stats where
  "counts_b = \<lparr>NSamples = 130, Metrics = []\<rparr>"

text \<open>One metric whose medians have opposite signs.\<close>

definition opposite_a :: Stats where
  "opposite_a = \<lparr>NSamples = 100, Metrics = [(''serverStatus.mem.resident'', \<lparr>Median = 1, MAD = 1\<rparr>)]\<rparr>"

definition opposite_b :: Stats where
  "opposite_b = \<lparr>NSamples = 100, Metrics = [(''serverStatus.mem.resident'', \<lparr>Median = - 1, MAD = 1\<rparr>)]\<rparr>"

text \<open>One metric whose medians are the largest \<^verbatim>\<open>int\<close> and its negation, so that
  their difference wraps.\<close>

definition wrap_a :: Stats where
  "wrap_a = \<lparr>NSamples = 100,
     Metrics = [(''serverStatus.mem.resident'', \<lparr>Median = 9223372036854775807, MAD = 1\<rparr>)]\<rparr>"

definition wrap_b :: Stats where
  "wrap_b = \<lparr>NSamples = 100,
     Metrics = [(''serverStatus.mem.resident'', \<lparr>Median = - 9223372036854775807, MAD = 1\<rparr>)]\<rparr>"

text \<open>No samples and no metrics.\<close>

definition zero_a :: Stats where
  "zero_a = \<lparr>NSamples = 0, Metrics = []\<rparr>"

text \<open>Fifty-four comparable metrics \<^verbatim>\<open>start.0\<close> to \<^verbatim>\<open>start.53\<close>, all zero.\<close>

definition perfect_keys :: "string list" where
  "perfect_keys = map (\<lambda>i. ''start.'' @ show_nat i) [0..<54]"

definition perfect54 :: Stats where
  "perfect54 = \<lparr>NSamples = 100, Metrics = map (\<lambda>key. (key, zeroMetric)) perfect_keys\<rparr>"

section \<open>Auxiliary facts\<close>

subsection \<open>Rounding\<close>

lemma pow2_powr: "pow2 e = 2 powr real_of_int e"
  by (simp add: pow2_def powr_int)

lemma pow2_pos [simp]: "0 < pow2 e"
  by (simp add: pow2_powr)

lemma pow2_add: "pow2 (a + b) = pow2 a * pow2 b"
  by (simp add: pow2_powr powr_add)

lemma pow2_diff: "pow2 (a - b) = pow2 a / pow2 b"
  by (simp add: pow2_powr powr_diff)

lemma pow2_mono: "a \<le> b \<Longrightarrow> pow2 a \<le> pow2 b"
  by (simp add: pow2_powr)

lemma pow2_strict_mono: "a < b \<Longrightarrow> pow2 a < pow2 b"
  by (simp add: pow2_powr)

lemma pow2_0 [simp]: "pow2 0 = 1"
  by (simp add: pow2_def)

lemma pow2_double: "pow2 (e + 1) = 2 * pow2 e"
  using pow2_add [of e 1] by (simp add: pow2_def)

lemma expo_iff: "0 < x \<Longrightarrow> expo x = k \<longleftrightarrow> pow2 k \<le> x \<and> x < pow2 (k + 1)"
  using floor_log_eq_powr_iff [of x 2 k] by (simp add: expo_def pow2_powr add.commute)

lemma expo_bounds:
  assumes "0 < x"
  shows "pow2 (expo x) \<le> x" and "x < pow2 (expo x + 1)"
  using expo_iff [OF assms, of "expo x"] by simp_all

lemma expo_unique: "0 < x \<Longrightarrow> pow2 k \<le> x \<Longrightarrow> x < pow2 (k + 1) \<Longrightarrow> expo x = k"
  by (simp add: expo_iff)

lemma expo_mono: "0 < x \<Longrightarrow> x \<le> y \<Longrightarrow> expo x \<le> expo y"
  by (simp add: expo_def floor_mono)

lemma round_even_of_int [simp]: "round_even (of_int n) = n"
  by (simp add: round_even_def)

lemma round_even_bounds: "\<lfloor>q\<rfloor> \<le> round_even q" "round_even q \<le> \<lfloor>q\<rfloor> + 1"
  by (simp_all add: round_even_def Let_def)

lemma round_even_mono:
  assumes "p \<le> q"
  shows "round_even p \<le> round_even q"
proof (cases "\<lfloor>p\<rfloor> = \<lfloor>q\<rfloor>")
  case True
  with assms show ?thesis
    by (auto simp add: round_even_def Let_def)
next
  case False
  with assms have "\<lfloor>p\<rfloor> < \<lfloor>q\<rfloor>"
    using floor_mono [of p q] by linarith
  then have "round_even p \<le> \<lfloor>q\<rfloor>"
    using round_even_bounds(2) [of p] by linarith
  also have "\<dots> \<le> round_even q" by (rule round_even_bounds)
  finally show ?thesis .
qed

lemma round_even_down: "of_int n \<le> q \<Longrightarrow> q < of_int n + 1 / 2 \<Longrightarrow> round_even q = n"
proof -
  assume a: "of_int n \<le> q" "q < of_int n + 1 / 2"
  then have "\<lfloor>q\<rfloor> = n" by linarith
  with a show ?thesis by (simp add: round_even_def Let_def)
qed

lemma round_even_up: "of_int n + 1 / 2 < q \<Longrightarrow> q \<le> of_int n + 1 \<Longrightarrow> round_even q = n + 1"
proof (cases "q = of_int n + 1")
  case True
  then have "q = of_int (n + 1)" by simp
  then show ?thesis by (simp only: round_even_of_int)
next
  case False
  assume a: "of_int n + 1 / 2 < q" "q \<le> of_int n + 1"
  with False have "\<lfloor>q\<rfloor> = n" by linarith
  with a show ?thesis by (simp add: round_even_def Let_def)
qed

lemma round_even_tie: "q = of_int n + 1 / 2 \<Longrightarrow> round_even q = (if even n then n else n + 1)"
proof -
  assume a: "q = of_int n + 1 / 2"
  then have "\<lfloor>q\<rfloor> = n" by linarith
  with a show ?thesis by (simp add: round_even_def Let_def)
qed

lemma pow2_nonzero [simp]: "pow2 e \<noteq> 0"
  using pow2_pos [of e] by linarith

lemma pow2_less_iff [simp]: "pow2 a < pow2 b \<longleftrightarrow> a < b"
  by (simp add: pow2_powr)

lemma pow2_le_iff [simp]: "pow2 a \<le> pow2 b \<longleftrightarrow> a \<le> b"
  by (simp add: pow2_powr)

lemma pow2_53: "of_int (2 ^ 53) * pow2 (e - 52) = pow2 (e + 1)"
proof -
  have "pow2 53 * pow2 (e - 52) = pow2 (53 + (e - 52))" by (rule pow2_add [symmetric])
  moreover have "53 + (e - 52) = e + 1" by simp
  moreover have "pow2 53 = of_int (2 ^ 53)" by (simp add: pow2_def)
  ultimately show ?thesis by (simp only:)
qed

lemma pow2_52: "of_int (2 ^ 52) * pow2 (e - 52) = pow2 e"
proof -
  have "pow2 52 * pow2 (e - 52) = pow2 (52 + (e - 52))" by (rule pow2_add [symmetric])
  moreover have "52 + (e - 52) = e" by simp
  moreover have "pow2 52 = of_int (2 ^ 52)" by (simp add: pow2_def)
  ultimately show ?thesis by (simp only:)
qed

lemma pow2_nat: "0 \<le> n \<Longrightarrow> pow2 n = of_int (2 ^ nat n)"
  by (simp add: pow2_def)

lemma round_pos_normal:
  assumes "0 < x" and "pow2 k \<le> x" and "x < pow2 (k + 1)" and "- 1022 \<le> k"
  shows "round_pos x = of_int (round_even (x / pow2 (k - 52))) * pow2 (k - 52)"
proof -
  have "expo x = k" using assms by (simp add: expo_unique)
  with assms(4) show ?thesis by (simp add: round_pos_def Let_def max_def)
qed

lemma round_pos_subnormal:
  assumes "0 < x" and "x < pow2 (- 1022)"
  shows "round_pos x = of_int (round_even (x / pow2 (- 1074))) * pow2 (- 1074)"
proof -
  have "expo x < - 1022"
  proof (rule ccontr)
    assume "\<not> expo x < - 1022"
    then have "pow2 (- 1022) \<le> pow2 (expo x)" by (intro pow2_mono) simp
    with expo_bounds(1) [OF assms(1)] assms(2) show False by linarith
  qed
  then show ?thesis by (simp add: round_pos_def Let_def max_def)
qed

lemma round_pos_nonneg:
  assumes "0 < x"
  shows "0 \<le> round_pos x"
proof -
  define u where "u = pow2 (max (expo x) (- 1022) - 52)"
  have u: "0 < u" by (simp add: u_def)
  with assms have "0 \<le> x / u" by simp
  then have "0 \<le> \<lfloor>x / u\<rfloor>" by simp
  with round_even_bounds(1) [of "x / u"] have "0 \<le> round_even (x / u)" by linarith
  with u have "0 \<le> of_int (round_even (x / u)) * u"
    by (intro mult_nonneg_nonneg) simp_all
  then show ?thesis by (simp add: round_pos_def Let_def u_def)
qed

lemma round_pos_upper:
  assumes "0 < x"
  shows "round_pos x \<le> pow2 (max (expo x) (- 1022) + 1)"
proof -
  define e where "e = max (expo x) (- 1022)"
  define u where "u = pow2 (e - 52)"
  have u: "0 < u" by (simp add: u_def)
  have "x < pow2 (expo x + 1)" using assms by (rule expo_bounds)
  also have "\<dots> \<le> pow2 (e + 1)" by (intro pow2_mono) (simp add: e_def)
  finally have "x / u \<le> pow2 (e + 1) / u" using u by (simp add: divide_right_mono)
  also have "pow2 (e + 1) / u = pow2 53"
    using pow2_diff [of "e + 1" "e - 52"] by (simp add: u_def)
  also have "pow2 53 = of_int (2 ^ 53)" by (simp add: pow2_def)
  finally have "round_even (x / u) \<le> round_even (of_int (2 ^ 53))" by (rule round_even_mono)
  then have "round_even (x / u) \<le> 2 ^ 53" by (simp only: round_even_of_int)
  then have "of_int (round_even (x / u)) * u \<le> of_int (2 ^ 53) * u"
    using u by (intro mult_right_mono) (simp_all del: of_int_power)
  also have "of_int (2 ^ 53) * u = pow2 (e + 1)" unfolding u_def by (rule pow2_53)
  finally show ?thesis by (simp add: round_pos_def Let_def u_def e_def)
qed

lemma round_pos_lower:
  assumes "0 < x" and "- 1022 \<le> expo x"
  shows "pow2 (expo x) \<le> round_pos x"
proof -
  define e where "e = expo x"
  define u where "u = pow2 (e - 52)"
  have u: "0 < u" by (simp add: u_def)
  have "pow2 e \<le> x" unfolding e_def using assms(1) by (rule expo_bounds)
  then have "pow2 e / u \<le> x / u" using u by (simp add: divide_right_mono)
  moreover have "pow2 e / u = pow2 52"
    using pow2_diff [of e "e - 52"] by (simp add: u_def)
  moreover have "pow2 52 = of_int (2 ^ 52)" by (simp add: pow2_def)
  ultimately have "round_even (of_int (2 ^ 52)) \<le> round_even (x / u)"
    by (intro round_even_mono) simp
  then have "2 ^ 52 \<le> round_even (x / u)" by (simp only: round_even_of_int)
  then have "of_int (2 ^ 52) * u \<le> of_int (round_even (x / u)) * u"
    using u by (intro mult_right_mono) (simp_all del: of_int_power)
  moreover have "of_int (2 ^ 52) * u = pow2 e" unfolding u_def by (rule pow2_52)
  ultimately have "pow2 e \<le> of_int (round_even (x / u)) * u" by (simp only:)
  moreover have "round_pos x = of_int (round_even (x / u)) * u"
    using assms(2) by (simp add: round_pos_def Let_def u_def e_def max_def)
  ultimately show ?thesis by (simp only: e_def)
qed

lemma round_pos_mono:
  assumes "0 < x" and "x \<le> y"
  shows "round_pos x \<le> round_pos y"
proof -
  define ex where "ex = max (expo x) (- 1022)"
  define ey where "ey = max (expo y) (- 1022)"
  have y: "0 < y" using assms by linarith
  have le: "ex \<le> ey"
    using expo_mono [OF assms] by (simp add: ex_def ey_def max_def)
  show ?thesis
  proof (cases "ex = ey")
    case True
    define u where "u = pow2 (ex - 52)"
    have u: "0 < u" by (simp add: u_def)
    have "x / u \<le> y / u" using assms(2) u by (simp add: divide_right_mono)
    then have "round_even (x / u) \<le> round_even (y / u)" by (rule round_even_mono)
    then have "of_int (round_even (x / u)) * u \<le> of_int (round_even (y / u)) * u"
      using u by (intro mult_right_mono) simp_all
    then show ?thesis
      using True by (simp add: round_pos_def Let_def u_def ex_def ey_def)
  next
    case False
    with le have lt: "ex < ey" by simp
    then have ey: "ey = expo y" "- 1022 \<le> expo y"
      by (simp_all add: ex_def ey_def max_def split: if_splits)
    have "round_pos x \<le> pow2 (ex + 1)"
      unfolding ex_def using assms(1) by (rule round_pos_upper)
    also have "\<dots> \<le> pow2 ey" using lt by (intro pow2_mono) simp
    also have "\<dots> \<le> round_pos y"
      unfolding ey(1) using y ey(2) by (rule round_pos_lower)
    finally show ?thesis .
  qed
qed

lemma round64_0 [simp]: "round64 0 = 0"
  by (simp add: round64_def)

lemma round64_minus: "round64 (- x) = - round64 x"
  by (simp add: round64_def)

lemma round64_nonneg: "0 \<le> x \<Longrightarrow> 0 \<le> round64 x"
  by (simp add: round64_def round_pos_nonneg)

lemma round64_nonpos: "x \<le> 0 \<Longrightarrow> round64 x \<le> 0"
  using round64_nonneg [of "- x"] by (simp add: round64_minus)

lemma round64_mono:
  assumes "x \<le> y"
  shows "round64 x \<le> round64 y"
proof -
  consider "0 < x" | "x \<le> 0" "0 \<le> y" | "y < 0" by linarith
  then show ?thesis
  proof cases
    case 1
    with assms have "round_pos x \<le> round_pos y" by (intro round_pos_mono)
    with 1 assms show ?thesis by (simp add: round64_def)
  next
    case 2
    then show ?thesis
      using round64_nonpos [of x] round64_nonneg [of y] by linarith
  next
    case 3
    with assms have "round_pos (- y) \<le> round_pos (- x)" by (intro round_pos_mono) simp_all
    with 3 assms show ?thesis by (simp add: round64_def)
  qed
qed

lemma round64_abs: "round64 \<bar>x\<bar> = \<bar>round64 x\<bar>"
proof (cases "0 \<le> x")
  case True
  then show ?thesis using round64_nonneg [of x] by simp
next
  case False
  then have "x \<le> 0" by simp
  then show ?thesis using round64_nonpos [of x] False by (simp add: round64_minus)
qed

lemma round_pos_fixed:
  assumes "0 < m" and "m < 2 ^ 53" and "- 1074 \<le> k"
  shows "round_pos (of_int m * pow2 k) = of_int m * pow2 k"
proof -
  define x where "x = of_int m * pow2 k"
  define e where "e = max (expo x) (- 1022)"
  have x: "0 < x" using assms(1) by (simp add: x_def)
  have "e - 52 \<le> k"
  proof (cases "expo x \<le> - 1022")
    case True
    then show ?thesis using assms(3) by (simp add: e_def max_def)
  next
    case False
    have "pow2 (expo x) \<le> x" using x by (rule expo_bounds)
    also have "x < of_int (2 ^ 53) * pow2 k"
      unfolding x_def using assms(2) by (intro mult_strict_right_mono) (simp_all del: of_int_power)
    also have "of_int (2 ^ 53) * pow2 k = pow2 (k + 53)"
    proof -
      have "of_int (2 ^ 53) * pow2 (k + 52 - 52) = pow2 (k + 52 + 1)" by (rule pow2_53)
      moreover have "k + 52 - 52 = k" and "k + 52 + 1 = k + 53" by simp_all
      ultimately show ?thesis by (simp only:)
    qed
    finally have "expo x < k + 53" by simp
    with False show ?thesis by (simp add: e_def max_def)
  qed
  then have n: "0 \<le> k - (e - 52)" by simp
  have "x / pow2 (e - 52) = of_int m * pow2 (k - (e - 52))"
    by (simp add: x_def pow2_diff)
  also have "\<dots> = of_int (m * 2 ^ nat (k - (e - 52)))"
    using n by (simp add: pow2_nat)
  finally have q: "x / pow2 (e - 52) = of_int (m * 2 ^ nat (k - (e - 52)))" .
  have "round_pos x = of_int (round_even (x / pow2 (e - 52))) * pow2 (e - 52)"
    by (simp add: round_pos_def Let_def e_def)
  also have "\<dots> = x / pow2 (e - 52) * pow2 (e - 52)"
    by (simp only: q round_even_of_int)
  also have "\<dots> = x" using pow2_pos [of "e - 52"] by simp
  finally show ?thesis by (simp add: x_def)
qed

lemma round64_fixed:
  assumes "\<bar>m\<bar> < 2 ^ 53" and "- 1074 \<le> k"
  shows "round64 (of_int m * pow2 k) = of_int m * pow2 k"
proof -
  consider "m = 0" | "0 < m" | "m < 0" by linarith
  then show ?thesis
  proof cases
    case 1
    then show ?thesis by simp
  next
    case 2
    with assms have "round_pos (of_int m * pow2 k) = of_int m * pow2 k"
      by (intro round_pos_fixed) simp_all
    moreover have "0 < of_int m * pow2 k" using 2 by simp
    ultimately show ?thesis by (simp add: round64_def)
  next
    case 3
    with assms have "round_pos (of_int (- m) * pow2 k) = of_int (- m) * pow2 k"
      by (intro round_pos_fixed) simp_all
    moreover have "of_int m * pow2 k < 0" using 3 by (simp add: mult_neg_pos)
    ultimately show ?thesis by (simp add: round64_def)
  qed
qed

lemma round64_int: "\<bar>m\<bar> < 2 ^ 53 \<Longrightarrow> round64 (of_int m) = of_int m"
  using round64_fixed [of m 0] by simp

lemma round64_pow2: "- 1074 \<le> k \<Longrightarrow> round64 (pow2 k) = pow2 k"
  using round64_fixed [of 1 k] by simp

lemma round_pos_double:
  assumes "pow2 (- 1022) \<le> x"
  shows "round_pos (2 * x) = 2 * round_pos x"
proof -
  have x: "0 < x" using assms pow2_pos [of "- 1022"] by linarith
  have e: "- 1022 \<le> expo x"
  proof (rule ccontr)
    assume "\<not> - 1022 \<le> expo x"
    then have "pow2 (expo x + 1) \<le> pow2 (- 1022)" by (intro pow2_mono) simp
    with expo_bounds(2) [OF x] assms show False by linarith
  qed
  have "pow2 (expo x + 1 + 1) = 2 * pow2 (expo x + 1)" and "pow2 (expo x + 1) = 2 * pow2 (expo x)"
    by (rule pow2_double)+
  then have "pow2 (expo x + 1) \<le> 2 * x" "2 * x < pow2 (expo x + 1 + 1)"
    using expo_bounds [OF x] by linarith+
  then have e2: "expo (2 * x) = expo x + 1"
    using x by (intro expo_unique) simp_all
  have "pow2 (expo x + 1 - 52) = 2 * pow2 (expo x - 52)"
    using pow2_double [of "expo x - 52"] by (simp add: algebra_simps)
  then show ?thesis
    using e by (simp add: round_pos_def Let_def e2 max_def)
qed

lemma round64_double:
  assumes "pow2 (- 1022) \<le> \<bar>x\<bar>"
  shows "round64 (2 * x) = 2 * round64 x"
proof (cases "0 < x")
  case True
  with assms show ?thesis by (simp add: round64_def round_pos_double)
next
  case False
  with assms pow2_pos [of "- 1022"] have "x < 0" by (cases "x = 0") simp_all
  with assms have "round_pos (2 * (- x)) = 2 * round_pos (- x)"
    by (intro round_pos_double) simp
  with \<open>x < 0\<close> show ?thesis by (simp add: round64_def)
qed

lemma round64_normal:
  assumes "0 < x" and "pow2 k \<le> x" and "x < pow2 (k + 1)" and "- 1022 \<le> k"
  shows "round64 x = of_int (round_even (x / pow2 (k - 52))) * pow2 (k - 52)"
  using assms by (simp add: round64_def round_pos_normal)

lemma round64_subnormal:
  assumes "0 < x" and "x < pow2 (- 1022)"
  shows "round64 x = of_int (round_even (x / pow2 (- 1074))) * pow2 (- 1074)"
  using assms by (simp add: round64_def round_pos_subnormal)

subsection \<open>The sort\<close>

lemma length_Swap [simp]: "length (Swap s i j) = length s"
  by (simp add: Swap_def)

lemma mset_Swap: "i < length s \<Longrightarrow> j < length s \<Longrightarrow> mset (Swap s i j) = mset s"
  unfolding Swap_def by (rule mset_swap)

lemma nth_Swap:
  "i < length s \<Longrightarrow> j < length s \<Longrightarrow>
   Swap s i j ! p = (if p = j then s ! i else if p = i then s ! j else s ! p)"
  by (simp add: Swap_def nth_list_update)

lemma bubble_inv_step:
  assumes inv: "bubble_inv s j k" and j: "0 < j" and less: "Less s j (j - 1)"
  shows "bubble_inv (Swap s j (j - 1)) (j - 1) k"
proof -
  from j obtain i where i: "j = Suc i" by (cases j) simp_all
  from inv have jk: "Suc i \<le> k" and k: "k < length s"
    and ord: "\<And>p q. p < q \<Longrightarrow> q \<le> k \<Longrightarrow> p \<noteq> Suc i \<Longrightarrow> q \<noteq> Suc i \<Longrightarrow> num (s ! p) \<le> num (s ! q)"
    and above: "\<And>q. Suc i < q \<Longrightarrow> q \<le> k \<Longrightarrow> num (s ! Suc i) < num (s ! q)"
    by (simp_all add: bubble_inv_def i)
  let ?t = "Swap s (Suc i) i"
  have jl: "Suc i < length s" "i < length s" using jk k by simp_all
  have nth: "\<And>p. ?t ! p = (if p = i then s ! Suc i else if p = Suc i then s ! i else s ! p)"
    using jl by (simp add: nth_Swap)
  have lt: "num (s ! Suc i) < num (s ! i)" using less by (simp add: Less_def i)
  have 1: "num (?t ! p) \<le> num (?t ! q)"
    if "p < q" "q \<le> k" "p \<noteq> i" "q \<noteq> i" for p q
  proof -
    define p' where "p' = (if p = Suc i then i else p)"
    define q' where "q' = (if q = Suc i then i else q)"
    have "?t ! p = s ! p'" "?t ! q = s ! q'"
      using that by (simp_all add: nth p'_def q'_def)
    moreover have "p' < q'" "q' \<le> k" "p' \<noteq> Suc i" "q' \<noteq> Suc i"
      using that by (auto simp add: p'_def q'_def)
    ultimately show ?thesis using ord [of p' q'] by simp
  qed
  have 2: "num (?t ! i) < num (?t ! q)" if "i < q" "q \<le> k" for q
  proof (cases "q = Suc i")
    case True
    with lt show ?thesis by (simp add: nth)
  next
    case False
    with that have "Suc i < q" by simp
    with above [of q] that False show ?thesis by (simp add: nth)
  qed
  have "bubble_inv ?t i k"
    unfolding bubble_inv_def using jk k 1 2 by auto
  then show ?thesis by (simp add: i)
qed

lemma bubble_inv_done:
  assumes inv: "bubble_inv s j k" and stop: "\<not> (0 < j \<and> Less s j (j - 1))"
  shows "sorted_upto s k"
  unfolding sorted_upto_def
proof (intro allI impI)
  fix p q
  assume pq: "p < q \<and> q \<le> k"
  from inv have jk: "j \<le> k"
    and ord: "\<And>p q. p < q \<Longrightarrow> q \<le> k \<Longrightarrow> p \<noteq> j \<Longrightarrow> q \<noteq> j \<Longrightarrow> num (s ! p) \<le> num (s ! q)"
    and above: "\<And>q. j < q \<Longrightarrow> q \<le> k \<Longrightarrow> num (s ! j) < num (s ! q)"
    by (simp_all add: bubble_inv_def)
  consider "p \<noteq> j" "q \<noteq> j" | "p = j" | "q = j" by blast
  then show "num (s ! p) \<le> num (s ! q)"
  proof cases
    case 1
    with pq ord show ?thesis by simp
  next
    case 2
    with pq above [of q] show ?thesis by simp
  next
    case 3
    with pq have j: "0 < j" by simp
    with stop have le: "num (s ! (j - 1)) \<le> num (s ! j)" by (simp add: Less_def)
    show ?thesis
    proof (cases "p = j - 1")
      case True
      with le 3 show ?thesis by simp
    next
      case False
      with pq 3 j have "p < j - 1" by linarith
      with ord [of p "j - 1"] jk j have "num (s ! p) \<le> num (s ! (j - 1))" by simp
      with le 3 show ?thesis by simp
    qed
  qed
qed

lemma bubble_correct:
  "bubble_inv s j k \<Longrightarrow>
   sorted_upto (bubble s j) k \<and> length (bubble s j) = length s \<and> mset (bubble s j) = mset s \<and>
   (\<forall>p. k < p \<longrightarrow> bubble s j ! p = s ! p)"
proof (induction s j rule: bubble.induct)
  case (1 s j)
  show ?case
  proof (cases "0 < j \<and> Less s j (j - 1)")
    case True
    then have inv': "bubble_inv (Swap s j (j - 1)) (j - 1) k"
      using "1.prems" by (intro bubble_inv_step) simp_all
    from "1.prems" have jl: "j < length s" "j - 1 < length s" "j \<le> k"
      by (auto simp add: bubble_inv_def)
    have b: "bubble s j = bubble (Swap s j (j - 1)) (j - 1)"
      using True by (subst bubble.simps) simp
    have "\<And>p. k < p \<Longrightarrow> Swap s j (j - 1) ! p = s ! p"
      using jl by (simp add: nth_Swap)
    with "1.IH" [OF True inv'] jl show ?thesis
      by (simp add: b mset_Swap)
  next
    case False
    then have "bubble s j = s" by (subst bubble.simps) auto
    with bubble_inv_done [OF "1.prems" False] show ?thesis by simp
  qed
qed

lemma bubble_inv_start:
  assumes "k < length s" and "0 < k \<Longrightarrow> sorted_upto s (k - 1)"
  shows "bubble_inv s k k"
  unfolding bubble_inv_def using assms
  by (auto simp add: sorted_upto_def)


lemma Sort_loop:
  assumes "length s = n" and "0 < i" and "sorted_upto s (i - 1)"
  shows "sorted_upto (fold (\<lambda>i s. bubble s i) [i..<n] s) (n - 1) \<and>
         length (fold (\<lambda>i s. bubble s i) [i..<n] s) = n \<and>
         mset (fold (\<lambda>i s. bubble s i) [i..<n] s) = mset s"
  using assms
proof (induction "n - i" arbitrary: i s)
  case 0
  then have "[i..<n] = []" and "n - 1 \<le> i - 1" by simp_all
  with 0 show ?case by (auto simp add: sorted_upto_def)
next
  case (Suc d)
  then have lt: "i < n" by simp
  then have upt: "[i..<n] = i # [Suc i..<n]" by (rule upt_conv_Cons)
  have inv: "bubble_inv s i i"
    using lt Suc.prems by (intro bubble_inv_start) simp_all
  from bubble_correct [OF inv]
  have b: "sorted_upto (bubble s i) i" "length (bubble s i) = n" "mset (bubble s i) = mset s"
    using Suc.prems by simp_all
  have "d = n - Suc i" using Suc.hyps(2) by simp
  from Suc.hyps(1) [OF this b(2)] b(1)
  have "sorted_upto (fold (\<lambda>i s. bubble s i) [Suc i..<n] (bubble s i)) (n - 1) \<and>
        length (fold (\<lambda>i s. bubble s i) [Suc i..<n] (bubble s i)) = n \<and>
        mset (fold (\<lambda>i s. bubble s i) [Suc i..<n] (bubble s i)) = mset (bubble s i)"
    by simp
  then show ?case by (simp add: upt b(3))
qed

lemma sorted_upto_0: "sorted_upto s 0"
  by (simp add: sorted_upto_def)

lemma mset_Sort [simp]: "mset (Sort s) = mset s"
  using Sort_loop [of s "length s" 1] by (simp add: Sort_def Len_def sorted_upto_0)

lemma length_Sort [simp]: "length (Sort s) = length s"
  using Sort_loop [of s "length s" 1] by (simp add: Sort_def Len_def sorted_upto_0)

lemma set_Sort [simp]: "set (Sort s) = set s"
  by (metis mset_Sort set_mset_mset)

lemma sorted_Sort: "sorted (map num (Sort s))"
proof -
  have "sorted_upto (Sort s) (length s - 1)"
    using Sort_loop [of s "length s" 1] by (simp add: Sort_def Len_def sorted_upto_0)
  then have "\<And>p q. p < q \<Longrightarrow> q < length (Sort s) \<Longrightarrow> num (Sort s ! p) \<le> num (Sort s ! q)"
    by (simp add: sorted_upto_def)
  then show ?thesis
    by (simp add: sorted_iff_nth_mono_less)
qed

lemma Sort_nums: "map num (Sort s) = sort (map num s)"
proof -
  have "mset (map num (Sort s)) = mset (map num s)"
    by (metis mset_Sort mset_map)
  with sorted_Sort [of s] show ?thesis
    by (metis properties_for_sort)
qed

subsection \<open>The filter\<close>

lemma join_dot_Cons: "join_dot ((c # w) # ws) = c # join_dot (w # ws)"
  by (cases ws) simp_all

lemma split_dot_nonempty: "split_dot key \<noteq> []"
  by (induction key) (simp_all split: list.splits)

lemma join_split_dot: "join_dot (split_dot key) = key"
proof (induction key)
  case Nil
  show ?case by simp
next
  case (Cons c cs)
  obtain w ws where ws: "split_dot cs = w # ws"
    using split_dot_nonempty [of cs] by (cases "split_dot cs") auto
  with Cons show ?case
    by (simp add: join_dot_Cons)
qed

lemma isCmpMetric_resident: "isCmpMetric ''serverStatus.mem.resident''"
  by code_simp

lemma isCmpMetric_extra: "isCmpMetric ''serverStatus.mem.resident.extra''"
  by code_simp

lemma isCmpMetric_notAMetric: "\<not> isCmpMetric ''notAMetric.foo''"
  by code_simp

lemma isCmpMetric_from_iff:
  "isCmpMetric_from s i \<longleftrightarrow> (\<exists>j. i \<le> j \<and> j < length s \<and> join_dot (take (j + 1) s) \<in> set cmpMetrics)"
proof (induction s i rule: isCmpMetric_from.induct)
  case (1 s i)
  show ?case
  proof (cases "i < length s")
    case False
    then show ?thesis by (subst isCmpMetric_from.simps) auto
  next
    case True
    show ?thesis
    proof (cases "join_dot (take (i + 1) s) \<in> set cmpMetrics")
      case hit: True
      with True show ?thesis by (subst isCmpMetric_from.simps) auto
    next
      case miss: False
      have "isCmpMetric_from s i = isCmpMetric_from s (i + 1)"
        using True miss by (subst isCmpMetric_from.simps) simp
      also have "\<dots> \<longleftrightarrow> (\<exists>j. i + 1 \<le> j \<and> j < length s \<and> join_dot (take (j + 1) s) \<in> set cmpMetrics)"
        using "1.IH" True miss by simp
      also have "\<dots> \<longleftrightarrow> (\<exists>j. i \<le> j \<and> j < length s \<and> join_dot (take (j + 1) s) \<in> set cmpMetrics)"
      proof
        assume "\<exists>j. i + 1 \<le> j \<and> j < length s \<and> join_dot (take (j + 1) s) \<in> set cmpMetrics"
        then obtain j where "i + 1 \<le> j" "j < length s" "join_dot (take (j + 1) s) \<in> set cmpMetrics"
          by blast
        then show "\<exists>j. i \<le> j \<and> j < length s \<and> join_dot (take (j + 1) s) \<in> set cmpMetrics"
          by (intro exI[of _ j]) simp
      next
        assume "\<exists>j. i \<le> j \<and> j < length s \<and> join_dot (take (j + 1) s) \<in> set cmpMetrics"
        then obtain j where j: "i \<le> j" "j < length s" "join_dot (take (j + 1) s) \<in> set cmpMetrics"
          by blast
        with miss have "j \<noteq> i" by auto
        with j show "\<exists>j. i + 1 \<le> j \<and> j < length s \<and> join_dot (take (j + 1) s) \<in> set cmpMetrics"
          by (intro exI[of _ j]) simp
      qed
      finally show ?thesis .
    qed
  qed
qed

subsection \<open>Values of the rounding\<close>

lemma round64_dyadic:
  "\<bar>m\<bar> < 2 ^ 53 \<Longrightarrow> - 1074 \<le> k \<Longrightarrow> x = of_int m * pow2 k \<Longrightarrow> round64 x = x"
  by (simp add: round64_fixed)

lemma round64_1 [simp]: "round64 1 = 1"
  using round64_int [of 1] by simp

lemma round64_m1 [simp]: "round64 (- 1) = - 1"
  using round64_minus [of 1] by simp

lemma round64_2 [simp]: "round64 2 = 2"
  using round64_int [of 2] by simp

lemma round64_half: "round64 (1 / 2) = 1 / 2"
  by (rule round64_dyadic [of 1 "- 1"]) (simp_all add: pow2_def)

lemma round64_small_int: "\<bar>sint n\<bar> < 2 ^ 53 \<Longrightarrow> float64_of_int n = real_of_int (sint n)"
  by (simp add: float64_of_int_def round64_int del: of_int_sint)

lemma round64_ge_1: "1 \<le> x \<Longrightarrow> 1 \<le> round64 x"
  using round64_mono [of 1 x] by simp

lemma round64_eq_0_int: "round64 (real_of_int n) = 0 \<longleftrightarrow> n = 0"
proof
  assume z: "round64 (real_of_int n) = 0"
  show "n = 0"
  proof (rule ccontr)
    assume "n \<noteq> 0"
    then consider "1 \<le> real_of_int n" | "real_of_int n \<le> - 1" by linarith
    then show False
    proof cases
      case 1
      with round64_ge_1 z show False by fastforce
    next
      case 2
      then have "round64 (real_of_int n) \<le> round64 (- 1)" by (rule round64_mono)
      with z show False by simp
    qed
  qed
qed simp

lemma float64_of_int_eq_0 [simp]: "float64_of_int n = 0 \<longleftrightarrow> n = 0"
proof -
  have "float64_of_int n = 0 \<longleftrightarrow> sint n = 0"
    unfolding float64_of_int_def by (rule round64_eq_0_int)
  then show ?thesis by (metis signed_eq_0_iff)
qed

lemma float64_of_int_0 [simp]: "float64_of_int 0 = 0"
  by simp

lemma maxAbs_nonneg: "0 \<le> maxAbs x y"
  by (simp add: maxAbs_def max_def)

lemma maxAbs_zero_iff: "maxAbs x y = 0 \<longleftrightarrow> x = 0 \<and> y = 0"
proof -
  have "max \<bar>float64_of_int x\<bar> \<bar>float64_of_int y\<bar> = 0 \<longleftrightarrow>
        float64_of_int x = 0 \<and> float64_of_int y = 0"
    by (auto simp add: max_def)
  then show ?thesis by (simp add: maxAbs_def)
qed

lemma round64_underflow:
  assumes "\<bar>y\<bar> \<le> pow2 (- 1075)"
  shows "round64 y = 0"
proof -
  have pos: "round64 x = 0" if x: "0 < x" and le: "x \<le> pow2 (- 1075)" for x
  proof -
    have "pow2 (- 1075) < pow2 (- 1022)" by simp
    with le have lt: "x < pow2 (- 1022)" by linarith
    have "0 \<le> pow2 (- 1074)" using pow2_pos [of "- 1074"] by linarith
    with le have "x / pow2 (- 1074) \<le> pow2 (- 1075) / pow2 (- 1074)"
      by (rule divide_right_mono)
    also have "pow2 (- 1075) / pow2 (- 1074) = pow2 (- 1075 - (- 1074))"
      by (simp only: pow2_diff)
    also have "\<dots> = 1 / 2" by (simp add: pow2_def)
    finally have q: "x / pow2 (- 1074) \<le> 1 / 2" .
    have q0: "0 < x / pow2 (- 1074)" using x by simp
    have "round_even (x / pow2 (- 1074)) = 0"
    proof (cases "x / pow2 (- 1074) = 1 / 2")
      case True
      then have "x / pow2 (- 1074) = of_int 0 + 1 / 2" by (simp only: of_int_0 add_0)
      then have "round_even (x / pow2 (- 1074)) = (if even (0::int) then 0 else 0 + 1)"
        by (rule round_even_tie)
      then show ?thesis by simp
    next
      case False
      with q q0 show ?thesis by (intro round_even_down) simp_all
    qed
    then show ?thesis using round64_subnormal [OF x lt] by simp
  qed
  consider "y = 0" | "0 < y" | "y < 0" by linarith
  then show ?thesis
  proof cases
    case 1
    then show ?thesis by simp
  next
    case 2
    with assms show ?thesis by (intro pos) simp_all
  next
    case 3
    with assms have "round64 (- y) = 0" by (intro pos) simp_all
    then show ?thesis by (simp add: round64_minus)
  qed
qed

lemma fpow2_weight:
  "fpow2 (- real k) = (if k \<le> 1074 then pow2 (- int k) else 0)"
proof -
  have p: "2 powr (- real k) = pow2 (- int k)" by (simp add: pow2_powr)
  show ?thesis
  proof (cases "k \<le> 1074")
    case True
    then show ?thesis by (simp add: fpow2_def p round64_pow2)
  next
    case False
    then have "pow2 (- int k) \<le> pow2 (- 1075)" by simp
    moreover have "\<bar>pow2 (- int k)\<bar> = pow2 (- int k)"
      using pow2_pos [of "- int k"] by linarith
    ultimately have "\<bar>pow2 (- int k)\<bar> \<le> pow2 (- 1075)" by linarith
    then have "round64 (pow2 (- int k)) = 0"
      by (rule round64_underflow)
    with False show ?thesis by (simp add: fpow2_def p)
  qed
qed

lemma pow2_neg_nat: "pow2 (- int k) = 1 / 2 ^ k"
  by (cases k) (simp_all add: pow2_def nat_add_distrib)

lemma weight_eq: "weight i = (if i + 1 \<le> 1074 then pow2 (- int (i + 1)) else 0)"
  unfolding weight_def by (rule fpow2_weight)

lemma weight_nonneg: "0 \<le> weight i"
  by (simp add: weight_eq less_imp_le)

lemma weight_le: "weight i \<le> pow2 (- int (i + 1))"
  by (simp add: weight_eq less_imp_le)

lemma weight_round: "round64 (weight i) = weight i"
  by (simp add: weight_eq round64_pow2)

lemma weight_small: "i + 1 \<le> 1074 \<Longrightarrow> weight i = pow2 (- int (i + 1))"
  by (simp add: weight_eq)

lemma contribution:
  assumes "\<bar>x\<bar> \<le> 1"
  shows "fmul (weight i) x = round64 (x / 2 ^ (i + 1))"
proof (cases "i + 1 \<le> 1074")
  case True
  then have "weight i = 1 / 2 ^ (i + 1)"
    by (simp only: weight_small pow2_neg_nat)
  then show ?thesis by (simp add: fmul_def)
next
  case False
  then have "- int (i + 1) \<le> - 1075" by simp
  then have "pow2 (- int (i + 1)) \<le> pow2 (- 1075)" by (rule pow2_mono)
  moreover have "\<bar>x / 2 ^ (i + 1)\<bar> = \<bar>x\<bar> * pow2 (- int (i + 1))"
    by (simp only: pow2_neg_nat) (simp add: abs_mult)
  moreover have "0 \<le> pow2 (- int (i + 1))"
    using pow2_pos [of "- int (i + 1)"] by linarith
  then have "\<bar>x\<bar> * pow2 (- int (i + 1)) \<le> 1 * pow2 (- int (i + 1))"
    using assms by (intro mult_right_mono)
  ultimately have "\<bar>x / 2 ^ (i + 1)\<bar> \<le> pow2 (- 1075)" by linarith
  then have "round64 (x / 2 ^ (i + 1)) = 0" by (rule round64_underflow)
  with False show ?thesis by (simp add: fmul_def weight_eq)
qed

lemma CmpThreshold_bounds: "1 / 8 \<le> CmpThreshold" "CmpThreshold \<le> 13 / 64"
proof -
  have "round64 (1 / 8) = 1 / 8"
    by (rule round64_dyadic [of 1 "- 3"]) (simp_all add: pow2_def)
  moreover have "round64 (1 / 8) \<le> round64 (2 / 10)" by (rule round64_mono) simp
  ultimately show "1 / 8 \<le> CmpThreshold" by (simp add: CmpThreshold_def)
  have "round64 (13 / 64) = 13 / 64"
    by (rule round64_dyadic [of 13 "- 6"]) (simp_all add: pow2_def)
  moreover have "round64 (2 / 10) \<le> round64 (13 / 64)" by (rule round64_mono) simp
  ultimately show "CmpThreshold \<le> 13 / 64" by (simp add: CmpThreshold_def)
qed

lemma badTimePenalty_bounds: "- (1 / 8) \<le> badTimePenalty" "badTimePenalty \<le> - (1 / 16)"
proof -
  have "round64 (- (1 / 8)) = - (1 / 8)"
    by (rule round64_dyadic [of "- 1" "- 3"]) (simp_all add: pow2_def)
  moreover have "round64 (- (1 / 8)) \<le> round64 (- (1 / 10))" by (rule round64_mono) simp
  ultimately show "- (1 / 8) \<le> badTimePenalty" by (simp add: badTimePenalty_def)
  have "round64 (- (1 / 16)) = - (1 / 16)"
    by (rule round64_dyadic [of "- 1" "- 4"]) (simp_all add: pow2_def)
  moreover have "round64 (- (1 / 10)) \<le> round64 (- (1 / 16))" by (rule round64_mono) simp
  ultimately show "badTimePenalty \<le> - (1 / 16)" by (simp add: badTimePenalty_def)
qed

lemma one_minus_CmpThreshold: "3 / 4 \<le> fsub 1 CmpThreshold" "fsub 1 CmpThreshold \<le> 1"
proof -
  have "round64 (3 / 4) = 3 / 4"
    by (rule round64_dyadic [of 3 "- 2"]) (simp_all add: pow2_def)
  moreover have "round64 (3 / 4) \<le> round64 (1 - CmpThreshold)"
    using CmpThreshold_bounds by (intro round64_mono) simp
  ultimately show "3 / 4 \<le> fsub 1 CmpThreshold" by (simp add: fsub_def)
  have "round64 (1 - CmpThreshold) \<le> round64 1"
    using CmpThreshold_bounds by (intro round64_mono) simp
  then show "fsub 1 CmpThreshold \<le> 1" by (simp add: fsub_def)
qed

subsection \<open>The loops\<close>

lemma collectScores_append:
  "collectScores thr a b keys scores =
     scores @ map (compareMetrics thr a b) (filter (\<lambda>key. has_metric b key \<and> isCmpMetric key) keys)"
  by (induction keys arbitrary: scores) simp_all

lemma collectScores_sharedKeys:
  "collectScores thr a b (map fst (Metrics a)) [] = map (compareMetrics thr a b) (sharedKeys a b)"
  by (simp add: collectScores_append sharedKeys_def)

lemma writeMsgs_concat: "writeMsgs buf cs = buf @ concat (map msg cs)"
  by (induction cs arbitrary: buf) simp_all

lemma weightedSum_append:
  "weightedSum i score (cs @ ds) = weightedSum (i + length cs) (weightedSum i score cs) ds"
  by (induction cs arbitrary: i score) simp_all

lemma weightedSum_runningTotal_pre:
  "\<forall>c \<in> set cs. \<bar>num c\<bar> \<le> 1 \<Longrightarrow>
   weightedSum (length pre) (runningTotal acc0 (pre @ map num cs) (length pre)) cs =
     runningTotal acc0 (pre @ map num cs) (length pre + length cs)"
proof (induction cs arbitrary: pre)
  case Nil
  show ?case by simp
next
  case (Cons c cs)
  have c: "fmul (weight (length pre)) (num c) = round64 (num c / 2 ^ (length pre + 1))"
    using Cons.prems by (intro contribution) simp
  have "weightedSum (length (pre @ [num c]))
          (runningTotal acc0 ((pre @ [num c]) @ map num cs) (length (pre @ [num c]))) cs =
        runningTotal acc0 ((pre @ [num c]) @ map num cs) (length (pre @ [num c]) + length cs)"
    using Cons.prems by (intro Cons.IH) simp
  then show ?case by (simp add: c)
qed

lemma weightedSum_runningTotal:
  "\<forall>c \<in> set cs. \<bar>num c\<bar> \<le> 1 \<Longrightarrow>
   weightedSum 0 acc0 cs = runningTotal acc0 (map num cs) (length cs)"
  using weightedSum_runningTotal_pre [of cs "[]" acc0] by simp

lemma weightedSum_mono:
  "score \<le> score' \<Longrightarrow> map num cs = map num ds \<Longrightarrow>
   weightedSum i score cs \<le> weightedSum i score' ds"
proof (induction cs arbitrary: ds i score score')
  case Nil
  then show ?case by simp
next
  case (Cons c cs)
  then obtain d ds' where ds: "ds = d # ds'" "num c = num d" "map num cs = map num ds'"
    by (cases ds) auto
  have "fadd score (fmul (weight i) (num c)) \<le> fadd score' (fmul (weight i) (num d))"
    unfolding fadd_def using Cons.prems(1) ds(2) by (intro round64_mono) simp
  from Cons.IH [OF this ds(3)] show ?case by (simp add: ds(1))
qed

lemma f64_ge_sqrt_iff: "f64_ge (f64_sqrt x) t \<longleftrightarrow> 0 \<le> x \<and> t \<le> round64 (sqrt x)"
  by (simp add: f64_sqrt_def)

lemma f64_sqrt_not_negative: "\<not> f64_lt (f64_sqrt x) 0"
  using round64_nonneg [of "sqrt x"] by (simp add: f64_sqrt_def not_less)

subsection \<open>The comparison of one metric\<close>

lemma compareMetrics_num_thr:
  "num (compareMetrics t1 a b key) = num (compareMetrics t2 a b key)"
  by (simp add: compareMetrics_def Let_def)

lemma compareMetrics_self: "compareMetrics thr s s key = \<lparr>num = 1, msg = []\<rparr>"
  by (simp add: compareMetrics_def Let_def)

lemma compareMetrics_equal_medians:
  "Median (metric_at sa key) = Median (metric_at sb key) \<Longrightarrow>
   compareMetrics thr sa sb key = \<lparr>num = 1, msg = []\<rparr>"
  by (simp add: compareMetrics_def Let_def)

lemma compareMetrics_zero_max:
  "maxAbs (MAD (metric_at sa key)) (MAD (metric_at sb key)) = 0 \<or>
   maxAbs (Median (metric_at sa key)) (Median (metric_at sb key)) = 0 \<Longrightarrow>
   compareMetrics thr sa sb key = \<lparr>num = 1, msg = []\<rparr>"
  by (auto simp add: compareMetrics_def Let_def)

lemma sint_diff_bound:
  fixes a b :: "64 word"
  shows "\<bar>sint (a - b)\<bar> \<le> 2 * max \<bar>sint a\<bar> \<bar>sint b\<bar>"
proof -
  define d where "d = sint a - sint b"
  have w: "sint (a - b) = signed_take_bit 63 d"
    by (simp add: sint_word_diff d_def)
  have ra: "- (2 ^ 63) \<le> sint a" "sint a < 2 ^ 63"
    using sint_ge [of a] sint_lt [of a] by simp_all
  have rb: "- (2 ^ 63) \<le> sint b" "sint b < 2 ^ 63"
    using sint_ge [of b] sint_lt [of b] by simp_all
  show ?thesis
  proof (cases "- (2 ^ 63) \<le> d \<and> d < 2 ^ 63")
    case True
    then have "signed_take_bit 63 d = d" by (simp add: signed_take_bit_int_eq_self)
    then show ?thesis unfolding w d_def by linarith
  next
    case False
    then have "2 ^ 63 \<le> \<bar>d\<bar>" by linarith
    then have "2 ^ 63 \<le> 2 * max \<bar>sint a\<bar> \<bar>sint b\<bar>" unfolding d_def by linarith
    moreover have "\<bar>signed_take_bit 63 d\<bar> \<le> 2 ^ 63"
      using signed_take_bit_int_greater_eq_minus_exp [of 63 d]
        signed_take_bit_int_less_exp [of 63 d] by linarith
    ultimately show ?thesis unfolding w by linarith
  qed
qed

lemma round64_max: "round64 (max x y) = max (round64 x) (round64 y)"
proof (cases "x \<le> y")
  case True
  then show ?thesis using round64_mono [of x y] by (simp add: max_def)
next
  case False
  then have "y \<le> x" by simp
  then show ?thesis using round64_mono [of y x] by (simp add: max_def)
qed

lemma float_diff_bound:
  fixes a b :: "64 word"
  assumes "maxAbs a b \<noteq> 0"
  shows "\<bar>float64_of_int (a - b)\<bar> \<le> 2 * maxAbs a b"
proof -
  define N where "N = max \<bar>sint a\<bar> \<bar>sint b\<bar>"
  have "a \<noteq> 0 \<or> b \<noteq> 0" using assms by (simp add: maxAbs_zero_iff)
  then have "sint a \<noteq> 0 \<or> sint b \<noteq> 0" by (metis signed_eq_0_iff)
  then have N: "1 \<le> N" unfolding N_def by linarith
  have "pow2 (- 1022) \<le> pow2 0" by (simp del: pow2_0)
  with N have big: "pow2 (- 1022) \<le> \<bar>real_of_int N\<bar>" by simp
  have "\<bar>float64_of_int (a - b)\<bar> = round64 \<bar>real_of_int (sint (a - b))\<bar>"
    by (simp only: float64_of_int_def round64_abs)
  also have "\<dots> \<le> round64 (2 * real_of_int N)"
    using sint_diff_bound [of a b] unfolding N_def by (intro round64_mono) linarith
  also have "\<dots> = 2 * round64 (real_of_int N)"
    using big by (rule round64_double)
  also have "real_of_int N = max \<bar>real_of_int (sint a)\<bar> \<bar>real_of_int (sint b)\<bar>"
    unfolding N_def by linarith
  also have "round64 \<dots> = maxAbs a b"
    by (simp only: round64_max round64_abs maxAbs_def float64_of_int_def)
  finally show ?thesis .
qed

lemma rel_bounds:
  fixes a b :: "64 word"
  assumes "maxAbs a b \<noteq> 0"
  shows "0 \<le> fdiv \<bar>float64_of_int (a - b)\<bar> (maxAbs a b)"
    and "fdiv \<bar>float64_of_int (a - b)\<bar> (maxAbs a b) \<le> 2"
proof -
  have pos: "0 < maxAbs a b" using assms maxAbs_nonneg [of a b] by linarith
  then have "0 \<le> \<bar>float64_of_int (a - b)\<bar> / maxAbs a b" by simp
  then show "0 \<le> fdiv \<bar>float64_of_int (a - b)\<bar> (maxAbs a b)"
    unfolding fdiv_def by (rule round64_nonneg)
  have "\<bar>float64_of_int (a - b)\<bar> / maxAbs a b \<le> 2"
    using float_diff_bound [OF assms] pos by (simp add: pos_divide_le_eq)
  then have "round64 (\<bar>float64_of_int (a - b)\<bar> / maxAbs a b) \<le> round64 2"
    by (rule round64_mono)
  then show "fdiv \<bar>float64_of_int (a - b)\<bar> (maxAbs a b) \<le> 2"
    by (simp add: fdiv_def)
qed

lemma one_minus_rel:
  assumes "0 \<le> r" and "r \<le> 2"
  shows "\<bar>fsub 1 r\<bar> \<le> 1"
proof -
  have "round64 (- 1) \<le> round64 (1 - r)" "round64 (1 - r) \<le> round64 1"
    using assms by (intro round64_mono; simp)+
  then show ?thesis by (simp add: fsub_def)
qed

lemma fmul_unit:
  assumes "\<bar>p\<bar> \<le> 1" and "\<bar>q\<bar> \<le> 1"
  shows "- 1 \<le> fmul p q" and "fmul p q \<le> 1"
proof -
  have "\<bar>p * q\<bar> = \<bar>p\<bar> * \<bar>q\<bar>" by (rule abs_mult)
  also have "\<dots> \<le> 1 * 1"
    using assms by (intro mult_mono) simp_all
  finally have "\<bar>p * q\<bar> \<le> 1" by simp
  then have "round64 (- 1) \<le> round64 (p * q)" "round64 (p * q) \<le> round64 1"
    by (intro round64_mono; linarith)+
  then show "- 1 \<le> fmul p q" and "fmul p q \<le> 1" by (simp_all add: fmul_def)
qed

lemma compareMetrics_num_bounds:
  shows "- 1 \<le> num (compareMetrics thr sa sb key)"
    and "num (compareMetrics thr sa sb key) \<le> 1"
proof -
  let ?a = "metric_at sa key" and ?b = "metric_at sb key"
  have "- 1 \<le> num (compareMetrics thr sa sb key) \<and> num (compareMetrics thr sa sb key) \<le> 1"
  proof (cases "Median ?a = Median ?b \<or> maxAbs (MAD ?a) (MAD ?b) = 0 \<or>
      maxAbs (Median ?a) (Median ?b) = 0")
    case True
    then show ?thesis by (auto simp add: compareMetrics_def Let_def)
  next
    case False
    then have m: "maxAbs (Median ?a) (Median ?b) \<noteq> 0"
      and d: "maxAbs (MAD ?a) (MAD ?b) \<noteq> 0" by simp_all
    have "\<bar>fsub 1 (fdiv \<bar>float64_of_int (Median ?a - Median ?b)\<bar> (maxAbs (Median ?a) (Median ?b)))\<bar> \<le> 1"
      using rel_bounds [OF m] by (rule one_minus_rel)
    moreover have "\<bar>fsub 1 (fdiv \<bar>float64_of_int (MAD ?a - MAD ?b)\<bar> (maxAbs (MAD ?a) (MAD ?b)))\<bar> \<le> 1"
      using rel_bounds [OF d] by (rule one_minus_rel)
    ultimately have
      "- 1 \<le> fmul (fsub 1 (fdiv \<bar>float64_of_int (Median ?a - Median ?b)\<bar> (maxAbs (Median ?a) (Median ?b))))
                 (fsub 1 (fdiv \<bar>float64_of_int (MAD ?a - MAD ?b)\<bar> (maxAbs (MAD ?a) (MAD ?b))))"
      "fmul (fsub 1 (fdiv \<bar>float64_of_int (Median ?a - Median ?b)\<bar> (maxAbs (Median ?a) (Median ?b))))
            (fsub 1 (fdiv \<bar>float64_of_int (MAD ?a - MAD ?b)\<bar> (maxAbs (MAD ?a) (MAD ?b)))) \<le> 1"
      by (rule fmul_unit)+
    with False show ?thesis by (simp add: compareMetrics_def Let_def)
  qed
  then show "- 1 \<le> num (compareMetrics thr sa sb key)"
    and "num (compareMetrics thr sa sb key) \<le> 1" by simp_all
qed

lemma pow2_numeral:
  "pow2 (numeral n) = 2 ^ numeral n"
  "pow2 (- numeral n) = 1 / 2 ^ numeral n"
  "pow2 1 = 2"
  "pow2 (- 1) = 1 / 2"
  by (simp_all add: pow2_def)

lemma round64_one_minus:
  assumes "k \<le> 53"
  shows "round64 (1 - pow2 (- int k)) = 1 - pow2 (- int k)"
proof (rule round64_dyadic [of "2 ^ k - 1" "- int k"])
  have "(2::int) ^ k \<le> 2 ^ 53" using assms by (intro power_increasing) simp_all
  moreover have "(0::int) < 2 ^ k" by simp
  ultimately show "\<bar>2 ^ k - 1 :: int\<bar> < 2 ^ 53" by linarith
  show "- 1074 \<le> - int k" using assms by simp
  have "pow2 (int k) * pow2 (- int k) = pow2 (int k + - int k)" by (rule pow2_add [symmetric])
  then have "2 ^ k * pow2 (- int k) = 1" by (simp add: pow2_def)
  then show "1 - pow2 (- int k) = real_of_int (2 ^ k - 1) * pow2 (- int k)"
    by (simp add: algebra_simps)
qed

lemma round64_one_plus: "round64 (1 + pow2 (- 54)) = 1"
proof -
  define x where "x = 1 + pow2 (- 54)"
  have "round64 x = of_int (round_even (x / pow2 (0 - 52))) * pow2 (0 - 52)"
    by (rule round64_normal) (simp_all add: x_def pow2_numeral)
  moreover have "round_even (x / pow2 (0 - 52)) = 2 ^ 52"
    by (rule round_even_down) (simp_all add: x_def pow2_numeral)
  ultimately show ?thesis by (simp add: x_def pow2_numeral)
qed

lemma round64_tie_one: "round64 (1 - pow2 (- 54)) = 1"
proof -
  define x where "x = 1 - pow2 (- 54)"
  have "round64 x = of_int (round_even (x / pow2 (- 1 - 52))) * pow2 (- 1 - 52)"
    by (rule round64_normal) (simp_all add: x_def pow2_numeral)
  moreover have "round_even (x / pow2 (- 1 - 52)) = (if even (2 ^ 53 - 1 :: int) then 2 ^ 53 - 1 else 2 ^ 53 - 1 + 1)"
    by (rule round_even_tie) (simp add: x_def pow2_numeral)
  ultimately show ?thesis by (simp add: x_def pow2_numeral)
qed

lemma round64_maxint: "round64 9223372036854775807 = 9223372036854775808"
proof -
  have "round64 9223372036854775807 =
      of_int (round_even (9223372036854775807 / pow2 (62 - 52))) * pow2 (62 - 52)"
    by (rule round64_normal) (simp_all add: pow2_numeral)
  moreover have "round_even (9223372036854775807 / pow2 (62 - 52)) = (2 ^ 53 - 1) + 1"
    by (rule round_even_up) (simp_all add: pow2_numeral)
  ultimately show ?thesis by (simp add: pow2_numeral)
qed

lemma round64_near_one: "round64 (1 - 1 / 2 ^ 62) = 1"
proof -
  have "round64 (1 - 1 / 2 ^ 62) =
      of_int (round_even ((1 - 1 / 2 ^ 62) / pow2 (- 1 - 52))) * pow2 (- 1 - 52)"
    by (rule round64_normal) (simp_all add: pow2_numeral)
  moreover have "round_even ((1 - 1 / 2 ^ 62) / pow2 (- 1 - 52)) = (2 ^ 53 - 1) + 1"
    by (rule round_even_up) (simp_all add: pow2_numeral)
  ultimately show ?thesis by (simp add: pow2_numeral)
qed

lemma round64_tiny: "round64 (1 / 2 ^ 62) = 1 / 2 ^ 62"
  by (rule round64_dyadic [of 1 "- 62"]) (simp_all add: pow2_def)

lemma round64_ints:
  "round64 100 = 100" "round64 130 = 130" "round64 (- 30) = - 30" "round64 (- 2) = - 2"
  using round64_int [of 100] round64_int [of 130] round64_int [of "- 30"] round64_int [of "- 2"]
  by simp_all

lemma float64_of_int_vals:
  "float64_of_int 1 = 1" "float64_of_int (- 1) = - 1" "float64_of_int 2 = 2"
  "float64_of_int (- 2) = - 2" "float64_of_int 100 = 100" "float64_of_int 130 = 130"
  by (simp_all add: float64_of_int_def round64_ints)

subsection \<open>Proximal\<close>

lemma Proximal_unfold:
  "Proximal thr srt a b =
    (let scores = srt (map (compareMetrics thr a b) (sharedKeys a b));
         score = f64_sqrt (weightedSum 0 (if countsDiffer thr a b then badTimePenalty else 0) scores)
     in ((if countsDiffer thr a b then sampleLine thr (NSamples a) (NSamples b) else []) @
           concat (map msg scores),
         score, f64_ge score (fsub 1 thr)))"
  by (simp add: Proximal_def Let_def collectScores_sharedKeys writeMsgs_concat)

lemma Proximal_score_sqrt:
  "fst (snd (Proximal thr srt a b)) =
     f64_sqrt (weightedSum 0 (if countsDiffer thr a b then badTimePenalty else 0)
                 (srt (collectScores thr a b (map fst (Metrics a)) [])))"
  by (simp add: Proximal_def Let_def)

lemma countsDiffer_self: "0 \<le> thr \<Longrightarrow> \<not> countsDiffer thr s s"
  by (simp add: countsDiffer_def f64_div_def fsub_def fdiv_def)

lemma f64_gt_antimono: "t1 \<le> t2 \<Longrightarrow> f64_gt q t2 \<Longrightarrow> f64_gt q t1"
  by (cases q) simp_all

lemma countsDiffer_antimono:
  "t1 \<le> t2 \<Longrightarrow> countsDiffer t2 a b \<Longrightarrow> countsDiffer t1 a b"
  unfolding countsDiffer_def Let_def by (rule f64_gt_antimono)

lemma Sort_single [simp]: "Sort [c] = [c]"
  by (simp add: Sort_def Len_def)

lemma Sort_Nil [simp]: "Sort [] = []"
  by (simp add: Sort_def Len_def)

lemma Sort_replicate: "Sort (replicate n x) = replicate n x"
proof (rule replicate_eqI)
  show "length (Sort (replicate n x)) = n" by simp
  show "\<And>y. y \<in> set (Sort (replicate n x)) \<Longrightarrow> y = x" by simp
qed

lemma Sort_nums_thr:
  "map num (Sort (map (compareMetrics t1 a b) keys)) = map num (Sort (map (compareMetrics t2 a b) keys))"
proof -
  have "map num (map (compareMetrics t1 a b) keys) = map num (map (compareMetrics t2 a b) keys)"
    by (simp add: compareMetrics_num_thr [of t1 a b _ t2])
  then show ?thesis by (simp only: Sort_nums)
qed

lemma badTimePenalty_neg: "badTimePenalty < 0"
  using badTimePenalty_bounds by linarith

lemma CmpThreshold_nonneg: "0 \<le> CmpThreshold"
  using CmpThreshold_bounds by linarith

subsection \<open>The weights of perfect scores\<close>

lemma weight_ones:
  "i + n \<le> 53 \<Longrightarrow>
   weightedSum i (1 - pow2 (- int i)) (replicate n \<lparr>num = 1, msg = []\<rparr>) = 1 - pow2 (- int (i + n))"
proof (induction n arbitrary: i)
  case 0
  show ?case by simp
next
  case (Suc n)
  then have i: "i + 1 \<le> 53" by simp
  have "pow2 (- int (i + 1) + 1) = 2 * pow2 (- int (i + 1))" by (rule pow2_double)
  moreover have "- int (i + 1) + 1 = - int i" by simp
  ultimately have "pow2 (- int i) = 2 * pow2 (- int (i + 1))" by (simp only:)
  then have "1 - pow2 (- int i) + pow2 (- int (i + 1)) = 1 - pow2 (- int (i + 1))" by linarith
  moreover have "weight i = pow2 (- int (i + 1))" using i by (intro weight_small) simp
  then have "fmul (weight i) 1 = pow2 (- int (i + 1))"
    using weight_round [of i] by (simp add: fmul_def)
  ultimately have "fadd (1 - pow2 (- int i)) (fmul (weight i) 1) = 1 - pow2 (- int (i + 1))"
    using round64_one_minus [OF i] by (simp only: fadd_def)
  moreover have "weightedSum (i + 1) (1 - pow2 (- int (i + 1))) (replicate n \<lparr>num = 1, msg = []\<rparr>) =
      1 - pow2 (- int (i + 1 + n))"
    using Suc.prems by (intro Suc.IH) simp
  moreover have "i + 1 + n = i + Suc n" by simp
  ultimately show ?case by (simp only: replicate_Suc weightedSum.simps cmpScore.simps)
qed

lemma weight_54_ones: "weightedSum 0 0 (replicate 54 \<lparr>num = 1, msg = []\<rparr>) = 1"
proof -
  have "replicate (53 + 1) \<lparr>num = 1, msg = []\<rparr> =
      replicate 53 \<lparr>num = 1, msg = []\<rparr> @ replicate 1 \<lparr>num = 1, msg = []\<rparr>"
    by (rule replicate_add)
  then have r: "replicate 54 \<lparr>num = 1, msg = []\<rparr> = replicate 53 \<lparr>num = 1, msg = []\<rparr> @ [\<lparr>num = 1, msg = []\<rparr>]"
    by simp
  have "weightedSum 0 (1 - pow2 (- int 0)) (replicate 53 \<lparr>num = 1, msg = []\<rparr>) = 1 - pow2 (- int (0 + 53))"
    by (rule weight_ones) simp
  then have 1: "weightedSum 0 0 (replicate 53 \<lparr>num = 1, msg = []\<rparr>) = 1 - pow2 (- 53)" by simp
  have "weight 53 = pow2 (- int (53 + 1))" by (rule weight_small) simp
  then have "fmul (weight 53) 1 = pow2 (- 54)"
    using weight_round [of 53] by (simp add: fmul_def)
  moreover have "1 - pow2 (- 53) + pow2 (- 54) = 1 - pow2 (- 54)"
    by (simp add: pow2_numeral)
  ultimately have "fadd (1 - pow2 (- 53)) (fmul (weight 53) 1) = 1"
    by (simp only: fadd_def round64_tie_one)
  then show ?thesis
    unfolding r weightedSum_append by (simp add: 1)
qed

lemma weight_bound:
  assumes "\<forall>c \<in> set cs. num c \<le> 1"
    and "score \<le> (if i \<le> 53 then 1 - pow2 (- int i) else 1)"
  shows "weightedSum i score cs \<le> 1"
  using assms
proof (induction cs arbitrary: i score)
  case Nil
  have "0 < pow2 (- int i)" by simp
  moreover have "score \<le> 1 - pow2 (- int i) \<or> score \<le> 1"
    using Nil.prems(2) by (cases "i \<le> 53") simp_all
  ultimately have "score \<le> 1" by linarith
  then show ?case by simp
next
  case (Cons c cs)
  define w where "w = weight i"
  have w: "0 \<le> w" "w \<le> pow2 (- int (i + 1))" "round64 w = w"
    unfolding w_def by (rule weight_nonneg weight_le weight_round)+
  have c: "num c \<le> 1" using Cons.prems(1) by simp
  have "w * num c \<le> w * 1" using c w(1) by (rule mult_left_mono)
  then have "fmul w (num c) \<le> round64 (w * 1)"
    unfolding fmul_def by (rule round64_mono)
  then have m: "fmul w (num c) \<le> pow2 (- int (i + 1))" using w by simp
  have s1: "score \<le> 1"
  proof -
    have "0 < pow2 (- int i)" by simp
    moreover have "score \<le> 1 - pow2 (- int i) \<or> score \<le> 1"
      using Cons.prems(2) by (cases "i \<le> 53") simp_all
    ultimately show ?thesis by linarith
  qed
  have step: "fadd score (fmul w (num c)) \<le>
      (if i + 1 \<le> 53 then 1 - pow2 (- int (i + 1)) else 1)"
  proof (cases "i + 1 \<le> 53")
    case True
    have "pow2 (- int (i + 1) + 1) = 2 * pow2 (- int (i + 1))" by (rule pow2_double)
    moreover have "- int (i + 1) + 1 = - int i" by simp
    ultimately have "pow2 (- int i) = 2 * pow2 (- int (i + 1))" by (simp only:)
    moreover have "score \<le> 1 - pow2 (- int i)" using True Cons.prems(2) by simp
    ultimately have "score + fmul w (num c) \<le> 1 - pow2 (- int (i + 1))"
      using m by linarith
    then have "round64 (score + fmul w (num c)) \<le> round64 (1 - pow2 (- int (i + 1)))"
      by (rule round64_mono)
    with True show ?thesis by (simp only: fadd_def round64_one_minus if_True)
  next
    case False
    then have "- int (i + 1) \<le> - 54" by simp
    then have "pow2 (- int (i + 1)) \<le> pow2 (- 54)" by (rule pow2_mono)
    with s1 m have "score + fmul w (num c) \<le> 1 + pow2 (- 54)" by linarith
    then have "round64 (score + fmul w (num c)) \<le> round64 (1 + pow2 (- 54))"
      by (rule round64_mono)
    with False show ?thesis by (simp only: fadd_def round64_one_plus if_False)
  qed
  have "weightedSum (i + 1) (fadd score (fmul w (num c))) cs \<le> 1"
    using Cons.prems(1) step by (intro Cons.IH) simp_all
  then show ?case by (simp add: w_def)
qed

subsection \<open>The example values\<close>

lemma isCmpMetric_start: "isCmpMetric (''start.'' @ s)"
proof -
  obtain w ws where "split_dot s = w # ws"
    using split_dot_nonempty [of s] by (cases "split_dot s") auto
  then have sp: "split_dot (''start.'' @ s) = ''start'' # w # ws" by simp
  have "''start'' \<in> set cmpMetrics" by (simp add: cmpMetrics_def)
  then show ?thesis
    unfolding isCmpMetric_def sp by (subst isCmpMetric_from.simps) simp
qed

lemma map_of_const:
  "map_of (map (\<lambda>key. (key, v)) keys) key = (if key \<in> set keys then Some v else None)"
  by (induction keys) simp_all

lemma perfect_sharedKeys: "sharedKeys perfect54 perfect54 = perfect_keys"
proof -
  have "has_metric perfect54 key \<and> isCmpMetric key" if "key \<in> set perfect_keys" for key
  proof
    show "has_metric perfect54 key"
      using that by (simp add: has_metric_def perfect54_def map_of_const)
    from that obtain i where "key = ''start.'' @ show_nat i"
      unfolding perfect_keys_def by auto
    then show "isCmpMetric key" by (simp only: isCmpMetric_start)
  qed
  then have "\<forall>key \<in> set perfect_keys. has_metric perfect54 key \<and> isCmpMetric key" by blast
  then have "filter (\<lambda>key. has_metric perfect54 key \<and> isCmpMetric key) perfect_keys = perfect_keys"
    by (simp only: filter_True)
  moreover have "map fst (Metrics perfect54) = perfect_keys"
    by (simp add: perfect54_def comp_def)
  ultimately show ?thesis by (simp only: sharedKeys_def)
qed

lemma perfect_length: "length perfect_keys = 54"
  by (simp add: perfect_keys_def)

lemma perfect_distinct: "distinct (map fst (Metrics perfect54))"
  unfolding perfect54_def perfect_keys_def by code_simp

lemma self_scores:
  "map (compareMetrics thr s s) keys = replicate (length keys) \<lparr>num = 1, msg = []\<rparr>"
  by (induction keys) (simp_all add: compareMetrics_self)

lemma scenario_sharedKeys: "sharedKeys scenario_a scenario_a = [''serverStatus.mem.resident'']"
  by (simp add: sharedKeys_def scenario_a_def has_metric_def isCmpMetric_resident)

lemma weight_one_score: "weightedSum 0 0 [\<lparr>num = 1, msg = []\<rparr>] = 1 / 2"
  using weight_ones [of 0 1] by (simp add: pow2_numeral)

lemma sqrt_half_upper: "round64 (sqrt (1 / 2)) \<le> 23 / 32"
proof -
  have "sqrt (1 / 2) \<le> 23 / 32"
    by (rule real_le_lsqrt) (simp_all add: power2_eq_square)
  then have "round64 (sqrt (1 / 2)) \<le> round64 (23 / 32)" by (rule round64_mono)
  moreover have "round64 (23 / 32) = 23 / 32"
    by (rule round64_dyadic [of 23 "- 5"]) (simp_all add: pow2_numeral)
  ultimately show ?thesis by simp
qed

lemma sqrt_half_lower: "1 / 2 \<le> round64 (sqrt (1 / 2))"
proof -
  have "1 / 2 \<le> sqrt (1 / 2)"
    by (rule real_le_rsqrt) (simp add: power2_eq_square)
  then have "round64 (1 / 2) \<le> round64 (sqrt (1 / 2))" by (rule round64_mono)
  then show ?thesis by (simp add: round64_half)
qed

lemma scenario_Proximal:
  assumes "0 \<le> thr"
  shows "Proximal thr Sort scenario_a scenario_a =
      ([], Finite (round64 (sqrt (1 / 2))), fsub 1 thr \<le> round64 (sqrt (1 / 2)))"
  using countsDiffer_self [OF assms, of scenario_a]
  by (simp add: Proximal_unfold scenario_sharedKeys compareMetrics_self weight_one_score f64_sqrt_def
      del: weightedSum.simps)

lemma opposite_metric_at:
  shows "metric_at opposite_a ''serverStatus.mem.resident'' = \<lparr>Median = 1, MAD = 1\<rparr>"
  and "metric_at opposite_b ''serverStatus.mem.resident'' = \<lparr>Median = - 1, MAD = 1\<rparr>"
  by (simp_all add: metric_at_def opposite_a_def opposite_b_def)

lemma opposite_has_metric:
  shows "has_metric opposite_a ''serverStatus.mem.resident''"
  and "has_metric opposite_b ''serverStatus.mem.resident''"
  by (simp_all add: has_metric_def opposite_a_def opposite_b_def)

lemma opposite_num:
  "num (compareMetrics thr opposite_a opposite_b ''serverStatus.mem.resident'') = - 1"
  by (simp add: compareMetrics_def opposite_metric_at Let_def maxAbs_def float64_of_int_vals
      fdiv_def fsub_def fmul_def)

lemma wrap_metric_at:
  shows "metric_at wrap_a ''serverStatus.mem.resident'' = \<lparr>Median = 9223372036854775807, MAD = 1\<rparr>"
  and "metric_at wrap_b ''serverStatus.mem.resident'' = \<lparr>Median = - 9223372036854775807, MAD = 1\<rparr>"
  by (simp_all add: metric_at_def wrap_a_def wrap_b_def)

lemma wrap_has_metric:
  shows "has_metric wrap_a ''serverStatus.mem.resident''"
  and "has_metric wrap_b ''serverStatus.mem.resident''"
  by (simp_all add: has_metric_def wrap_a_def wrap_b_def)

lemma float64_of_int_maxint:
  shows "float64_of_int 9223372036854775807 = 9223372036854775808"
  and "float64_of_int (- 9223372036854775807) = - 9223372036854775808"
proof -
  have "float64_of_int 9223372036854775807 = round64 9223372036854775807"
    by (simp add: float64_of_int_def)
  then show "float64_of_int 9223372036854775807 = 9223372036854775808"
    by (simp only: round64_maxint)
  have "float64_of_int (- 9223372036854775807) = round64 (- 9223372036854775807)"
    by (simp add: float64_of_int_def)
  then show "float64_of_int (- 9223372036854775807) = - 9223372036854775808"
    by (simp only: round64_minus round64_maxint)
qed

lemma wrap_maxAbs:
  shows "maxAbs (9223372036854775807 :: 64 word) (- 9223372036854775807) = 9223372036854775808"
  and "maxAbs (1 :: 64 word) 1 = 1"
  by (simp_all add: maxAbs_def float64_of_int_maxint float64_of_int_vals)

lemma compareMetrics_eval:
  assumes "metric_at sa key = a" and "metric_at sb key = b"
    and "Median a \<noteq> Median b"
    and "maxAbs (MAD a) (MAD b) \<noteq> 0" and "maxAbs (Median a) (Median b) \<noteq> 0"
    and "fdiv \<bar>float64_of_int (MAD a - MAD b)\<bar> (maxAbs (MAD a) (MAD b)) = relmad"
    and "fdiv \<bar>float64_of_int (Median a - Median b)\<bar> (maxAbs (Median a) (Median b)) = relmed"
  shows "compareMetrics thr sa sb key =
     \<lparr>num = fmul (fsub 1 relmed) (fsub 1 relmad),
       msg = (if thr < relmad then madLine thr key a b else []) @
             (if thr < relmed then medianLine thr key a b else [])\<rparr>"
  using assms by (simp add: compareMetrics_def Let_def)

lemma wrap_compare:
  "compareMetrics CmpThreshold wrap_a wrap_b ''serverStatus.mem.resident'' = \<lparr>num = 1, msg = []\<rparr>"
proof -
  let ?a = "\<lparr>Median = 9223372036854775807 :: 64 word, MAD = 1 :: 64 word\<rparr>"
  let ?b = "\<lparr>Median = - 9223372036854775807 :: 64 word, MAD = 1 :: 64 word\<rparr>"
  have ne: "Median ?a \<noteq> Median ?b" by simp
  have m1: "maxAbs (MAD ?a) (MAD ?b) \<noteq> 0" by (simp add: wrap_maxAbs)
  have m2: "maxAbs (Median ?a) (Median ?b) \<noteq> 0" by (simp add: wrap_maxAbs)
  have relmad: "fdiv \<bar>float64_of_int (MAD ?a - MAD ?b)\<bar> (maxAbs (MAD ?a) (MAD ?b)) = 0"
    by (simp add: fdiv_def)
  have "float64_of_int (Median ?a - Median ?b) = - 2"
    by (simp add: float64_of_int_def round64_ints)
  then have relmed: "fdiv \<bar>float64_of_int (Median ?a - Median ?b)\<bar> (maxAbs (Median ?a) (Median ?b)) = 1 / 2 ^ 62"
    using round64_tiny by (simp add: wrap_maxAbs fdiv_def)
  have small: "\<not> CmpThreshold < 1 / 2 ^ 62" "\<not> CmpThreshold < 0"
    using CmpThreshold_bounds(1) by simp_all
  have one: "fmul (fsub 1 (1 / 2 ^ 62)) (fsub 1 0) = 1"
    by (simp only: fsub_def fmul_def round64_near_one) simp
  show ?thesis
    using compareMetrics_eval [OF wrap_metric_at ne m1 m2 relmad relmed, of CmpThreshold] small
    by (simp only: one if_False append_Nil)
qed

lemma wrap_relDev:
  shows "relDev (sint (9223372036854775807 :: 64 word)) (sint (- 9223372036854775807 :: 64 word)) = 2"
  and "relDev (sint (1 :: 64 word)) (sint (1 :: 64 word)) = 0"
  by (simp_all add: relDev_def)

lemma wrap_sharedKeys: "sharedKeys wrap_a wrap_b = [''serverStatus.mem.resident'']"
  by (simp add: sharedKeys_def wrap_a_def wrap_b_def has_metric_def isCmpMetric_resident)

lemma compareMetrics_in_range:
  assumes a: "metric_at sa key = a" and b: "metric_at sb key = b"
    and small: "\<bar>sint (Median a)\<bar> < 2 ^ 52" "\<bar>sint (Median b)\<bar> < 2 ^ 52"
      "\<bar>sint (MAD a)\<bar> < 2 ^ 52" "\<bar>sint (MAD b)\<bar> < 2 ^ 52"
    and ne: "Median a \<noteq> Median b" and mad: "MAD a \<noteq> 0 \<or> MAD b \<noteq> 0"
  shows "compareMetrics thr sa sb key =
     \<lparr>num = fmul (fsub 1 (round64 (relDev (sint (Median a)) (sint (Median b)))))
                 (fsub 1 (round64 (relDev (sint (MAD a)) (sint (MAD b))))),
       msg = (if thr < round64 (relDev (sint (MAD a)) (sint (MAD b))) then madLine thr key a b else []) @
             (if thr < round64 (relDev (sint (Median a)) (sint (Median b)))
              then medianLine thr key a b else [])\<rparr>"
proof -
  have rel: "fdiv \<bar>float64_of_int (x - y)\<bar> (maxAbs x y) = round64 (relDev (sint x) (sint y))"
    if "\<bar>sint x\<bar> < 2 ^ 52" "\<bar>sint y\<bar> < 2 ^ 52" for x y :: "64 word"
  proof -
    have d: "sint (x - y) = sint x - sint y"
      using that by (simp add: sint_word_diff signed_take_bit_int_eq_self)
    have "(2::int) ^ 53 = 2 * 2 ^ 52" by simp
    then have "\<bar>sint (x - y)\<bar> < 2 ^ 53" unfolding d using that by linarith
    then have "float64_of_int (x - y) = real_of_int (sint x - sint y)"
      using d by (simp add: round64_small_int del: of_int_sint of_int_diff)
    moreover have "float64_of_int x = real_of_int (sint x)" "float64_of_int y = real_of_int (sint y)"
      using that by (simp_all add: round64_small_int del: of_int_sint)
    ultimately show ?thesis
      by (simp add: fdiv_def relDev_def maxAbs_def del: of_int_sint)
  qed
  have m1: "maxAbs (MAD a) (MAD b) \<noteq> 0" using mad by (simp add: maxAbs_zero_iff)
  have m2: "maxAbs (Median a) (Median b) \<noteq> 0" using ne by (auto simp add: maxAbs_zero_iff)
  show ?thesis
    using compareMetrics_eval [OF a b ne m1 m2 rel [OF small(3,4)] rel [OF small(1,2)], of thr]
    by simp
qed

lemma Proximal_message_structure:
  "fst (Proximal thr Sort a b) =
     (if countsDiffer thr a b then sampleLine thr (NSamples a) (NSamples b) else []) @
     concat (map msg (Sort (map (compareMetrics thr a b) (sharedKeys a b))))"
  by (simp add: Proximal_unfold Let_def)

lemma counts_differ: "countsDiffer CmpThreshold counts_a counts_b"
proof -
  have "round64 (14 / 64) = 14 / 64"
    by (rule round64_dyadic [of 14 "- 6"]) (simp_all add: pow2_numeral)
  moreover have "round64 (14 / 64) \<le> round64 (30 / 130)" by (rule round64_mono) simp
  ultimately have "CmpThreshold < round64 (30 / 130)"
    using CmpThreshold_bounds(2) by linarith
  then show ?thesis
    by (simp add: countsDiffer_def counts_a_def counts_b_def float64_of_int_vals fsub_def
        round64_ints f64_div_def fdiv_def)
qed

lemma perfect_Proximal:
  shows "weightedSum 0 0 (Sort (collectScores CmpThreshold perfect54 perfect54
            (map fst (Metrics perfect54)) [])) = 1"
    and "Proximal CmpThreshold Sort perfect54 perfect54 = ([], Finite 1, True)"
proof -
  have sc: "Sort (map (compareMetrics CmpThreshold perfect54 perfect54) (sharedKeys perfect54 perfect54)) =
      replicate 54 \<lparr>num = 1, msg = []\<rparr>"
    by (simp only: self_scores Sort_replicate perfect_sharedKeys perfect_length)
  show "weightedSum 0 0 (Sort (collectScores CmpThreshold perfect54 perfect54
            (map fst (Metrics perfect54)) [])) = 1"
    by (simp only: collectScores_sharedKeys sc weight_54_ones)
  have cd: "\<not> countsDiffer CmpThreshold perfect54 perfect54"
    using CmpThreshold_nonneg by (rule countsDiffer_self)
  have "concat (map msg (replicate 54 \<lparr>num = 1, msg = []\<rparr>)) = []" by simp
  moreover have "fsub 1 CmpThreshold \<le> 1" by (rule one_minus_CmpThreshold)
  ultimately show "Proximal CmpThreshold Sort perfect54 perfect54 = ([], Finite 1, True)"
    unfolding Proximal_unfold Let_def sc using cd
    by (simp add: weight_54_ones f64_sqrt_def)
qed

lemma Proximal_accumulator_bound:
  "weightedSum 0 (if countsDiffer thr a b then badTimePenalty else 0)
     (Sort (collectScores thr a b (map fst (Metrics a)) [])) \<le> 1"
proof (rule weight_bound)
  show "\<forall>c \<in> set (Sort (collectScores thr a b (map fst (Metrics a)) [])). num c \<le> 1"
    by (auto simp add: collectScores_sharedKeys compareMetrics_num_bounds)
  show "(if countsDiffer thr a b then badTimePenalty else 0) \<le>
      (if (0::nat) \<le> 53 then 1 - pow2 (- int 0) else 1)"
    using badTimePenalty_neg by simp
qed

section \<open>The claims\<close>

text \<open>
  C1. At the single-metric scenario of the specification, compared with itself under
  the initial threshold, \<^verbatim>\<open>Proximal\<close> returns the empty message, the rounded square
  root of one half as score, which is below \<open>1\<close>, and the verdict false.
\<close>

theorem Proximal_self_scenario:
  "Proximal CmpThreshold Sort scenario_a scenario_a = ([], Finite (round64 (sqrt (1 / 2))), False) \<and>
   round64 (sqrt (1 / 2)) < 1"
proof -
  have "\<not> fsub 1 CmpThreshold \<le> round64 (sqrt (1 / 2))"
    using one_minus_CmpThreshold(1) sqrt_half_upper by linarith
  moreover have "round64 (sqrt (1 / 2)) < 1" using sqrt_half_upper by linarith
  ultimately show ?thesis
    by (simp add: scenario_Proximal [OF CmpThreshold_nonneg])
qed

text \<open>
  C2. \<^verbatim>\<open>Proximal\<close> sorts the scores of the shared comparable keys ascending by
  \<open>num\<close>; its score is the square root of the running total that starts at the penalty
  of the sample-count check (\<open>badTimePenalty\<close>, the \<^verbatim>\<open>float64\<close> \<open>-0.1\<close>, if the check
  fails and \<open>0\<close> otherwise) and to which the score of rank \<open>i\<close> contributes its product
  with the weight \<open>2\<close> to the power \<open>-(i + 1)\<close>; and the verdict is that this score is at
  least one minus the threshold.
\<close>

theorem Proximal_rank_weighted_score:
  "let scores = Sort (map (compareMetrics thr a b) (sharedKeys a b));
       acc0 = (if countsDiffer thr a b then badTimePenalty else 0);
       score = f64_sqrt (runningTotal acc0 (map num scores) (length scores))
   in mset scores = mset (map (compareMetrics thr a b) (sharedKeys a b)) \<and>
      sorted (map num scores) \<and>
      badTimePenalty = round64 (- (1 / 10)) \<and>
      snd (Proximal thr Sort a b) = (score, f64_ge score (fsub 1 thr))"
proof -
  have "\<forall>c \<in> set (Sort (map (compareMetrics thr a b) (sharedKeys a b))). \<bar>num c\<bar> \<le> 1"
    using compareMetrics_num_bounds [of thr a b] by (auto simp add: abs_le_iff)
  then show ?thesis
    by (simp add: Let_def Proximal_unfold weightedSum_runningTotal sorted_Sort badTimePenalty_def)
qed

text \<open>The theorem at the scenario: one score \<open>1\<close>, contributing one half.\<close>

theorem Proximal_rank_weighted_score_witness:
  "runningTotal 0 [1] 1 = 1 / 2 \<and>
   snd (Proximal CmpThreshold Sort scenario_a scenario_a) = (Finite (round64 (sqrt (1 / 2))), False)"
proof -
  have cd: "countsDiffer CmpThreshold scenario_a scenario_a = False"
    using countsDiffer_self [OF CmpThreshold_nonneg] by simp
  from Proximal_rank_weighted_score [of CmpThreshold scenario_a scenario_a]
  have p: "snd (Proximal CmpThreshold Sort scenario_a scenario_a) =
          (f64_sqrt (runningTotal 0 [1] 1), f64_ge (f64_sqrt (runningTotal 0 [1] 1)) (fsub 1 CmpThreshold))"
    by (simp add: Let_def scenario_sharedKeys compareMetrics_self cd del: runningTotal.simps)
  have r: "runningTotal 0 [1] 1 = 1 / 2"
    by (simp add: fadd_def round64_half)
  have n: "\<not> fsub 1 CmpThreshold \<le> round64 (sqrt (1 / 2))"
    using one_minus_CmpThreshold(1) sqrt_half_upper by linarith
  from p have "snd (Proximal CmpThreshold Sort scenario_a scenario_a) =
      (f64_sqrt (1 / 2), f64_ge (f64_sqrt (1 / 2)) (fsub 1 CmpThreshold))"
    by (simp only: r)
  then have "snd (Proximal CmpThreshold Sort scenario_a scenario_a) =
      (Finite (round64 (sqrt (1 / 2))), False)"
    using n by (simp add: f64_sqrt_def)
  with r show ?thesis by (simp only: simp_thms)
qed

text \<open>
  C3. At medians \<open>9223372036854775807\<close> and \<open>-9223372036854775807\<close> with both MADs
  \<open>1\<close>, a key present in both values: the medians differ, neither maximum is zero, the
  relative deviation of the medians is \<open>2\<close> and that of the MADs is \<open>0\<close>, and
  \<^verbatim>\<open>compareMetrics\<close> returns the score \<open>1\<close>.
\<close>

theorem compareMetrics_wrap:
  "has_metric wrap_a ''serverStatus.mem.resident'' \<and>
   has_metric wrap_b ''serverStatus.mem.resident'' \<and>
   Median (metric_at wrap_a ''serverStatus.mem.resident'') \<noteq>
     Median (metric_at wrap_b ''serverStatus.mem.resident'') \<and>
   maxAbs (MAD (metric_at wrap_a ''serverStatus.mem.resident''))
     (MAD (metric_at wrap_b ''serverStatus.mem.resident'')) \<noteq> 0 \<and>
   maxAbs (Median (metric_at wrap_a ''serverStatus.mem.resident''))
     (Median (metric_at wrap_b ''serverStatus.mem.resident'')) \<noteq> 0 \<and>
   relDev (sint (Median (metric_at wrap_a ''serverStatus.mem.resident'')))
     (sint (Median (metric_at wrap_b ''serverStatus.mem.resident''))) = 2 \<and>
   relDev (sint (MAD (metric_at wrap_a ''serverStatus.mem.resident'')))
     (sint (MAD (metric_at wrap_b ''serverStatus.mem.resident''))) = 0 \<and>
   compareMetrics CmpThreshold wrap_a wrap_b ''serverStatus.mem.resident'' = \<lparr>num = 1, msg = []\<rparr>"
  using wrap_relDev
  by (simp add: wrap_has_metric wrap_metric_at wrap_maxAbs wrap_compare)

text \<open>
  C4. For every key, the metric filter returns true if and only if the join of the first
  \<open>j + 1\<close> dot-separated segments of the key, for some \<open>j\<close>, is in the allow-list;
  joining all segments gives the key back. The filter accepts
  \<^verbatim>\<open>serverStatus.mem.resident\<close> and \<^verbatim>\<open>serverStatus.mem.resident.extra\<close> and
  rejects \<^verbatim>\<open>notAMetric.foo\<close>.
\<close>

theorem isCmpMetric_prefix_in_allow_list:
  "(isCmpMetric key \<longleftrightarrow>
      (\<exists>j. j < length (split_dot key) \<and> join_dot (take (j + 1) (split_dot key)) \<in> set cmpMetrics))
   \<and> join_dot (split_dot key) = key
   \<and> isCmpMetric ''serverStatus.mem.resident''
   \<and> isCmpMetric ''serverStatus.mem.resident.extra''
   \<and> \<not> isCmpMetric ''notAMetric.foo''"
proof -
  have "isCmpMetric key \<longleftrightarrow>
      (\<exists>j. j < length (split_dot key) \<and> join_dot (take (j + 1) (split_dot key)) \<in> set cmpMetrics)"
    by (simp add: isCmpMetric_def isCmpMetric_from_iff)
  then show ?thesis
    using join_split_dot isCmpMetric_resident isCmpMetric_extra isCmpMetric_notAMetric
    by blast
qed

text \<open>The theorem at the key \<^verbatim>\<open>start.x\<close>, whose first segment is listed.\<close>

theorem isCmpMetric_prefix_in_allow_list_witness:
  "isCmpMetric ''start.x'' \<and> join_dot (take 1 (split_dot ''start.x'')) = ''start''
   \<and> ''start'' \<in> set cmpMetrics"
proof -
  have s: "split_dot ''start.x'' = [''start'', ''x'']" by simp
  have m: "''start'' \<in> set cmpMetrics" by (simp add: cmpMetrics_def)
  have "\<exists>j. j < length (split_dot ''start.x'') \<and>
          join_dot (take (j + 1) (split_dot ''start.x'')) \<in> set cmpMetrics"
    using m by (intro exI[of _ 0]) (simp add: s)
  with isCmpMetric_prefix_in_allow_list [of "''start.x''"] have "isCmpMetric ''start.x''"
    by blast
  with m show ?thesis by (simp add: s)
qed

text \<open>
  C5. When both sample counts are zero the quotient of the sample-count check is NaN,
  the check does not fire, and \<^verbatim>\<open>Proximal\<close> returns the messages of the metrics
  alone with the accumulator started at \<open>0\<close>.
\<close>

theorem Proximal_zero_counts:
  assumes "NSamples a = 0" and "NSamples b = 0"
  shows "f64_div \<bar>fsub (float64_of_int (NSamples a)) (float64_of_int (NSamples b))\<bar>
           (max (float64_of_int (NSamples a)) (float64_of_int (NSamples b))) = NaN \<and>
         \<not> countsDiffer thr a b \<and>
         Proximal thr srt a b =
           (let scores = srt (collectScores thr a b (map fst (Metrics a)) []);
                score = f64_sqrt (weightedSum 0 0 scores)
            in (writeMsgs [] scores, score, f64_ge score (fsub 1 thr)))"
  using assms by (simp add: Proximal_def countsDiffer_def f64_div_def fsub_def Let_def)

text \<open>The theorem at two values without samples and without metrics.\<close>

theorem Proximal_zero_counts_witness:
  "NSamples zero_a = 0 \<and> \<not> countsDiffer CmpThreshold zero_a zero_a \<and>
   Proximal CmpThreshold (sort_key num) zero_a zero_a = ([], Finite 0, False)"
proof -
  have z: "NSamples zero_a = 0" by (simp add: zero_a_def)
  have m: "Metrics zero_a = []" by (simp add: zero_a_def)
  have "\<not> fsub 1 CmpThreshold \<le> 0" using one_minus_CmpThreshold(1) by linarith
  with Proximal_zero_counts [OF z z, of CmpThreshold "sort_key num"] z show ?thesis
    by (simp add: m f64_sqrt_def)
qed

text \<open>
  C6. For thresholds \<open>t1 < t2\<close> strictly between \<open>0\<close> and \<open>1\<close> and the same two
  values, a true verdict under \<open>t1\<close> is a true verdict under \<open>t2\<close>.
\<close>

theorem Proximal_threshold_monotone:
  assumes "0 < t1" and "t1 < t2" and "t2 < 1"
    and "snd (snd (Proximal t1 Sort a b))"
  shows "snd (snd (Proximal t2 Sort a b))"
proof -
  define p1 where "p1 = (if countsDiffer t1 a b then badTimePenalty else 0)"
  define p2 where "p2 = (if countsDiffer t2 a b then badTimePenalty else 0)"
  define acc1 where "acc1 = weightedSum 0 p1 (Sort (map (compareMetrics t1 a b) (sharedKeys a b)))"
  define acc2 where "acc2 = weightedSum 0 p2 (Sort (map (compareMetrics t2 a b) (sharedKeys a b)))"
  have ok1: "snd (snd (Proximal t1 Sort a b)) \<longleftrightarrow> 0 \<le> acc1 \<and> fsub 1 t1 \<le> round64 (sqrt acc1)"
    by (simp add: Proximal_unfold Let_def f64_ge_sqrt_iff acc1_def p1_def)
  have ok2: "snd (snd (Proximal t2 Sort a b)) \<longleftrightarrow> 0 \<le> acc2 \<and> fsub 1 t2 \<le> round64 (sqrt acc2)"
    by (simp add: Proximal_unfold Let_def f64_ge_sqrt_iff acc2_def p2_def)
  have p: "p1 \<le> p2"
    using countsDiffer_antimono [of t1 t2 a b] assms(2) badTimePenalty_neg
    by (auto simp add: p1_def p2_def)
  have acc: "acc1 \<le> acc2"
    unfolding acc1_def acc2_def using p Sort_nums_thr by (rule weightedSum_mono)
  from assms(4) ok1 have nn: "0 \<le> acc1" and ge: "fsub 1 t1 \<le> round64 (sqrt acc1)" by simp_all
  have "fsub 1 t2 \<le> fsub 1 t1"
    unfolding fsub_def using assms(2) by (intro round64_mono) simp
  also note ge
  also have "round64 (sqrt acc1) \<le> round64 (sqrt acc2)"
    using acc by (intro round64_mono) simp
  finally have "fsub 1 t2 \<le> round64 (sqrt acc2)" .
  moreover have "0 \<le> acc2" using nn acc by linarith
  ultimately show ?thesis using ok2 by simp
qed

text \<open>The theorem at the scenario compared with itself, thresholds one half and three
  quarters.\<close>

theorem Proximal_threshold_monotone_witness:
  "(0::real) < 1 / 2 \<and> (1 / 2 :: real) < 3 / 4 \<and> (3 / 4 :: real) < 1 \<and>
   snd (snd (Proximal (1 / 2) Sort scenario_a scenario_a)) \<and>
   snd (snd (Proximal (3 / 4) Sort scenario_a scenario_a))"
proof -
  have "fsub 1 (1 / 2) = 1 / 2" by (simp add: fsub_def round64_half)
  then have h: "snd (snd (Proximal (1 / 2) Sort scenario_a scenario_a))"
    using sqrt_half_lower by (simp add: scenario_Proximal)
  have "snd (snd (Proximal (3 / 4) Sort scenario_a scenario_a))"
    by (rule Proximal_threshold_monotone [OF _ _ _ h]) simp_all
  with h show ?thesis by simp
qed

text \<open>
  C7. At the same medians \<open>9223372036854775807\<close> and \<open>-9223372036854775807\<close> (MADs
  \<open>1\<close>, equal sample counts), for a key that is present in both values and passes the
  filter: the relative deviation of the medians exceeds the threshold and the message
  that \<^verbatim>\<open>Proximal\<close> returns is empty.
\<close>

theorem Proximal_wrap_message:
  "has_metric wrap_a ''serverStatus.mem.resident'' \<and>
   has_metric wrap_b ''serverStatus.mem.resident'' \<and>
   isCmpMetric ''serverStatus.mem.resident'' \<and>
   Median (metric_at wrap_a ''serverStatus.mem.resident'') \<noteq>
     Median (metric_at wrap_b ''serverStatus.mem.resident'') \<and>
   maxAbs (MAD (metric_at wrap_a ''serverStatus.mem.resident''))
     (MAD (metric_at wrap_b ''serverStatus.mem.resident'')) \<noteq> 0 \<and>
   CmpThreshold < relDev (sint (Median (metric_at wrap_a ''serverStatus.mem.resident'')))
     (sint (Median (metric_at wrap_b ''serverStatus.mem.resident''))) \<and>
   fst (Proximal CmpThreshold Sort wrap_a wrap_b) = []"
proof -
  have "\<not> countsDiffer CmpThreshold wrap_a wrap_b"
    using CmpThreshold_nonneg
    by (simp add: countsDiffer_def wrap_a_def wrap_b_def f64_div_def fsub_def fdiv_def)
  then have "fst (Proximal CmpThreshold Sort wrap_a wrap_b) = []"
    by (simp add: Proximal_message_structure wrap_sharedKeys wrap_compare)
  moreover have "CmpThreshold < 2" using CmpThreshold_bounds(2) by linarith
  ultimately show ?thesis
    using wrap_relDev
    by (simp add: wrap_has_metric wrap_metric_at wrap_maxAbs isCmpMetric_resident)
qed

text \<open>
  C8, as the code has it. The score of the comparison of one metric lies between \<open>-1\<close>
  and \<open>1\<close>, for every pair of values and every key.
\<close>

theorem compareMetrics_score_range:
  "- 1 \<le> num (compareMetrics thr sa sb key) \<and> num (compareMetrics thr sa sb key) \<le> 1"
proof (rule conjI)
  show "- 1 \<le> num (compareMetrics thr sa sb key)"
    by (rule compareMetrics_num_bounds)
  show "num (compareMetrics thr sa sb key) \<le> 1"
    by (rule compareMetrics_num_bounds)
qed

text \<open>
  C8 as stated fails: a metric present in both values with medians \<open>1\<close> and \<open>-1\<close> and
  both MADs \<open>1\<close> scores \<open>-1\<close>, which is below \<open>badTimePenalty\<close>.
\<close>

theorem compareMetrics_score_counterexample:
  "has_metric opposite_a ''serverStatus.mem.resident'' \<and>
   has_metric opposite_b ''serverStatus.mem.resident'' \<and>
   num (compareMetrics CmpThreshold opposite_a opposite_b ''serverStatus.mem.resident'') = - 1 \<and>
   \<not> badTimePenalty \<le> num (compareMetrics CmpThreshold opposite_a opposite_b ''serverStatus.mem.resident'')"
  using badTimePenalty_bounds(1)
  by (simp add: opposite_has_metric opposite_num)

text \<open>
  C9, as the code has it. The score that \<^verbatim>\<open>Proximal\<close> returns is NaN or a number that
  is not negative. The accumulator under the square root can be negative: with sample
  counts 100 and 130 and no metrics it is \<open>badTimePenalty\<close> and the score is NaN.
\<close>

theorem Proximal_score_not_negative:
  "(fst (snd (Proximal thr srt a b)) = NaN \<or>
      (\<exists>x. 0 \<le> x \<and> fst (snd (Proximal thr srt a b)) = Finite x)) \<and>
   countsDiffer CmpThreshold counts_a counts_b \<and>
   weightedSum 0 badTimePenalty (sort_key num (collectScores CmpThreshold counts_a counts_b
       (map fst (Metrics counts_a)) [])) < 0 \<and>
   Proximal CmpThreshold (sort_key num) counts_a counts_b =
     (sampleLine CmpThreshold 100 130, NaN, False)"
proof -
  have 1: "fst (snd (Proximal thr srt a b)) = NaN \<or>
      (\<exists>x. 0 \<le> x \<and> fst (snd (Proximal thr srt a b)) = Finite x)"
    using round64_nonneg [of "sqrt x" for x]
    by (simp add: Proximal_score_sqrt f64_sqrt_def)
  have m: "Metrics counts_a = []" "NSamples counts_a = 100" "NSamples counts_b = 130"
    by (simp_all add: counts_a_def counts_b_def)
  have 3: "weightedSum 0 badTimePenalty (sort_key num (collectScores CmpThreshold counts_a counts_b
       (map fst (Metrics counts_a)) [])) < 0"
    using badTimePenalty_neg by (simp add: m)
  have 4: "Proximal CmpThreshold (sort_key num) counts_a counts_b =
     (sampleLine CmpThreshold 100 130, NaN, False)"
    using counts_differ badTimePenalty_neg by (simp add: Proximal_def Let_def m f64_sqrt_def)
  from 1 counts_differ 3 4 show ?thesis by blast
qed

text \<open>
  C9 as stated fails: no threshold, sort and pair of values give a score below zero.
\<close>

theorem Proximal_score_negative_counterexample:
  "\<not> (\<exists>thr srt a b. f64_lt (fst (snd (Proximal thr srt a b))) 0)"
  by (simp add: Proximal_score_sqrt f64_sqrt_not_negative)

text \<open>
  C10, as the code has it. When the accumulator under the square root is negative
  \<^verbatim>\<open>Proximal\<close> returns the score NaN and the verdict false; otherwise the score is a
  number from \<open>0\<close> to \<open>1\<close>, both bounds included.
\<close>

theorem Proximal_score_range:
  "let acc = weightedSum 0 (if countsDiffer thr a b then badTimePenalty else 0)
               (Sort (collectScores thr a b (map fst (Metrics a)) []))
   in (acc < 0 \<longrightarrow>
         fst (snd (Proximal thr Sort a b)) = NaN \<and> \<not> snd (snd (Proximal thr Sort a b))) \<and>
      (0 \<le> acc \<longrightarrow>
         (\<exists>x. fst (snd (Proximal thr Sort a b)) = Finite x \<and> 0 \<le> x \<and> x \<le> 1))"
proof -
  define acc where "acc = weightedSum 0 (if countsDiffer thr a b then badTimePenalty else 0)
               (Sort (collectScores thr a b (map fst (Metrics a)) []))"
  have p: "Proximal thr Sort a b =
      ((if countsDiffer thr a b then sampleLine thr (NSamples a) (NSamples b) else []) @
         writeMsgs [] (Sort (collectScores thr a b (map fst (Metrics a)) [])),
       f64_sqrt acc, f64_ge (f64_sqrt acc) (fsub 1 thr))"
    by (simp add: Proximal_def Let_def acc_def)
  have le: "acc \<le> 1" unfolding acc_def by (rule Proximal_accumulator_bound)
  have "round64 (sqrt acc) \<le> 1 \<and> 0 \<le> round64 (sqrt acc)" if "0 \<le> acc"
  proof
    have "sqrt acc \<le> 1" using le by simp
    then have "round64 (sqrt acc) \<le> round64 1" by (rule round64_mono)
    then show "round64 (sqrt acc) \<le> 1" by simp
    show "0 \<le> round64 (sqrt acc)" using that by (intro round64_nonneg) simp
  qed
  then show ?thesis
    unfolding Let_def acc_def [symmetric] p by (simp add: f64_sqrt_def)
qed

text \<open>The theorem at sample counts 100 and 130 without metrics, where the accumulator
  is negative, and at the single-metric scenario, where it is one half.\<close>

theorem Proximal_score_range_witness:
  "weightedSum 0 (if countsDiffer CmpThreshold counts_a counts_b then badTimePenalty else 0)
     (Sort (collectScores CmpThreshold counts_a counts_b (map fst (Metrics counts_a)) [])) < 0 \<and>
   fst (snd (Proximal CmpThreshold Sort counts_a counts_b)) = NaN \<and>
   \<not> snd (snd (Proximal CmpThreshold Sort counts_a counts_b)) \<and>
   0 \<le> weightedSum 0 (if countsDiffer CmpThreshold scenario_a scenario_a then badTimePenalty else 0)
     (Sort (collectScores CmpThreshold scenario_a scenario_a (map fst (Metrics scenario_a)) [])) \<and>
   (\<exists>x. fst (snd (Proximal CmpThreshold Sort scenario_a scenario_a)) = Finite x \<and> 0 \<le> x \<and> x \<le> 1)"
proof -
  have m: "Metrics counts_a = []" by (simp add: counts_a_def)
  have neg: "weightedSum 0 (if countsDiffer CmpThreshold counts_a counts_b then badTimePenalty else 0)
     (Sort (collectScores CmpThreshold counts_a counts_b (map fst (Metrics counts_a)) [])) < 0"
    using counts_differ badTimePenalty_neg by (simp add: m)
  have cd: "\<not> countsDiffer CmpThreshold scenario_a scenario_a"
    using CmpThreshold_nonneg by (rule countsDiffer_self)
  have pos: "0 \<le> weightedSum 0 (if countsDiffer CmpThreshold scenario_a scenario_a then badTimePenalty else 0)
     (Sort (collectScores CmpThreshold scenario_a scenario_a (map fst (Metrics scenario_a)) []))"
    using cd by (simp add: collectScores_sharedKeys scenario_sharedKeys compareMetrics_self
        weight_one_score del: weightedSum.simps)
  from Proximal_score_range [of CmpThreshold counts_a counts_b] neg
  have "fst (snd (Proximal CmpThreshold Sort counts_a counts_b)) = NaN \<and>
      \<not> snd (snd (Proximal CmpThreshold Sort counts_a counts_b))"
    unfolding Let_def by blast
  moreover from Proximal_score_range [of CmpThreshold scenario_a scenario_a] pos
  have "\<exists>x. fst (snd (Proximal CmpThreshold Sort scenario_a scenario_a)) = Finite x \<and> 0 \<le> x \<and> x \<le> 1"
    unfolding Let_def by blast
  ultimately show ?thesis using neg pos by blast
qed

text \<open>
  C10 as stated fails: with fifty-four metrics that all score \<open>1\<close> the accumulator is
  \<open>1\<close>, not negative, and the score is \<open>1\<close>, which is not below \<open>1\<close>.
\<close>

theorem Proximal_score_one_counterexample:
  "distinct (map fst (Metrics perfect54)) \<and>
   length (sharedKeys perfect54 perfect54) = 54 \<and>
   weightedSum 0 (if countsDiffer CmpThreshold perfect54 perfect54 then badTimePenalty else 0)
     (Sort (collectScores CmpThreshold perfect54 perfect54 (map fst (Metrics perfect54)) [])) = 1 \<and>
   Proximal CmpThreshold Sort perfect54 perfect54 = ([], Finite 1, True) \<and>
   \<not> f64_lt (fst (snd (Proximal CmpThreshold Sort perfect54 perfect54))) 1"
proof -
  have cd: "\<not> countsDiffer CmpThreshold perfect54 perfect54"
    using CmpThreshold_nonneg by (rule countsDiffer_self)
  show ?thesis
    using cd perfect_distinct
    by (simp add: perfect_Proximal perfect_sharedKeys perfect_length)
qed

end
